theory Spec2Isabelle
  imports Complex_Main
begin

section \<open>Python values used by the PDF splitter\<close>

text \<open>
  Python integers are unbounded: they are modelled as \<open>int\<close>. Floor division \<open>//\<close> and
  \<open>%\<close> of Python agree with \<open>div\<close> and \<open>mod\<close> on \<open>int\<close> (both round towards minus
  infinity), except that Python raises \<open>ZeroDivisionError\<close> for a zero divisor.
  Every exception the modelled code can meet is a value of \<open>py_error\<close>.
\<close>

datatype py_error = ValueError | ZeroDivisionError | IndexError | OSError | PdfReadError

subsection \<open>The builtin \<open>range(start, stop, step)\<close>\<close>

function range_up :: "int \<Rightarrow> int \<Rightarrow> int \<Rightarrow> int list" where
  "range_up start stop step =
     (if 0 < step \<and> start < stop then start # range_up (start + step) stop step else [])"
  by pat_completeness auto
termination
  by (relation "measure (\<lambda>(start, stop, step). nat (stop - start))") auto

function range_down :: "int \<Rightarrow> int \<Rightarrow> int \<Rightarrow> int list" where
  "range_down start stop step =
     (if step < 0 \<and> stop < start then start # range_down (start + step) stop step else [])"
  by pat_completeness auto
termination
  by (relation "measure (\<lambda>(start, stop, step). nat (start - stop))") auto

definition py_range :: "int \<Rightarrow> int \<Rightarrow> int \<Rightarrow> py_error + int list" where
  "py_range start stop step =
     (if step = 0 then Inl ValueError
      else if 0 < step then Inr (range_up start stop step)
      else Inr (range_down start stop step))"

subsection \<open>Decimal text of integers: \<open>str(i)\<close> and the format \<open>{i:03d}\<close>\<close>

definition digit_char :: "nat \<Rightarrow> char" where
  "digit_char d = ''0123456789'' ! d"

function digits :: "nat \<Rightarrow> string" where
  "digits n = (if n < 10 then [digit_char n] else digits (n div 10) @ [digit_char (n mod 10)])"
  by pat_completeness auto
termination
  by (relation "measure id") auto

definition str_int :: "int \<Rightarrow> string" where
  "str_int i = (if i < 0 then ''-'' @ digits (nat (- i)) else digits (nat i))"

text \<open>
  The format specification \<open>03d\<close> pads with zeros between the sign and the digits up to a
  total width of three characters; wider numbers are printed in full.
\<close>

definition format_03d :: "int \<Rightarrow> string" where
  "format_03d i =
     (let sign = (if i < 0 then ''-'' else '''');
          ds = digits (nat \<bar>i\<bar>)
      in sign @ replicate (3 - length sign - length ds) (CHR ''0'') @ ds)"

section \<open>Paths\<close>

text \<open>
  A \<open>pathlib.Path\<close> is kept as its directory part and its final component. The final
  component never contains a separator. \<open>stem\<close> and \<open>suffix\<close> follow pathlib: with
  \<open>i = name.rfind('.')\<close>, the suffix is \<open>name[i:]\<close> when \<open>0 < i < len(name) - 1\<close> and
  empty otherwise, and the stem is the rest of the name.
\<close>

record path =
  parent :: string
  name :: string

definition rfind :: "char \<Rightarrow> string \<Rightarrow> int" where
  "rfind c s =
     (if c \<in> set s then int (length s) - 1 - int (length (takeWhile (\<lambda>x. x \<noteq> c) (rev s)))
      else - 1)"

definition suffix :: "path \<Rightarrow> string" where
  "suffix p =
     (let i = rfind (CHR ''.'') (name p)
      in if 0 < i \<and> i < int (length (name p)) - 1 then drop (nat i) (name p) else '''')"

definition stem :: "path \<Rightarrow> string" where
  "stem p =
     (let i = rfind (CHR ''.'') (name p)
      in if 0 < i \<and> i < int (length (name p)) - 1 then take (nat i) (name p) else name p)"

definition path_join :: "string \<Rightarrow> string \<Rightarrow> path" where
  "path_join dir filename = \<lparr>parent = dir, name = filename\<rparr>"

section \<open>\<open>pdf_splitter.py\<close>: class \<open>PDFSplitter\<close>\<close>

text \<open>
  The reader, once loaded, is the sequence of pages of the document; reading a page can
  raise (the library parses pages on access), so each position holds a page or the
  exception its access raises. \<open>total_pages\<close> is a field of its own, as in the class.
\<close>

record 'p PDFSplitter =
  input_file :: path
  reader :: "(py_error + 'p) list option"
  total_pages :: int

definition validate_split_parameters :: "'p PDFSplitter \<Rightarrow> int \<Rightarrow> bool \<times> string" where
  "validate_split_parameters self pages_per_split =
     (if pages_per_split \<le> 0 then (False, ''Pages per split must be greater than 0'')
      else if pages_per_split \<ge> total_pages self then
        (False, ''Pages per split ('' @ str_int pages_per_split
                @ '') should be less than total pages ('' @ str_int (total_pages self) @ '')'')
      else (True, ''''))"

definition get_page_ranges :: "'p PDFSplitter \<Rightarrow> int \<Rightarrow> py_error + (int \<times> int) list" where
  "get_page_ranges self pages_per_split =
     (case py_range 0 (total_pages self) pages_per_split of
        Inl e \<Rightarrow> Inl e
      | Inr starts \<Rightarrow>
          Inr (map (\<lambda>start.
                 let end = min (start + pages_per_split - 1) (total_pages self - 1)
                 in (start + 1, end + 1)) starts))"

record split_info =
  si_total_pages :: int
  si_pages_per_split :: int
  si_num_splits :: int
  si_last_split_pages :: int
  si_ranges :: "(int \<times> int) list"

definition calculate_split_info :: "'p PDFSplitter \<Rightarrow> int \<Rightarrow> py_error + split_info" where
  "calculate_split_info self pages_per_split =
     (if pages_per_split = 0 then Inl ZeroDivisionError
      else
        let num_splits = (total_pages self + pages_per_split - 1) div pages_per_split;
            last_split_pages = total_pages self mod pages_per_split;
            last_split_pages = (if last_split_pages = 0 then pages_per_split else last_split_pages)
        in case get_page_ranges self pages_per_split of
             Inl e \<Rightarrow> Inl e
           | Inr ranges \<Rightarrow>
               Inr \<lparr>si_total_pages = total_pages self,
                    si_pages_per_split = pages_per_split,
                    si_num_splits = num_splits,
                    si_last_split_pages = last_split_pages,
                    si_ranges = ranges\<rparr>)"

section \<open>\<open>file_manager.py\<close>: class \<open>FileManager\<close>\<close>

record FileManager =
  fm_input_file :: path
  output_dir :: string
  base_name :: string

definition generate_output_filenames :: "FileManager \<Rightarrow> int \<Rightarrow> int \<Rightarrow> py_error + path list" where
  "generate_output_filenames self total_pages' pages_per_split =
     (if pages_per_split = 0 then Inl ZeroDivisionError
      else
        let num_splits = (total_pages' + pages_per_split - 1) div pages_per_split
        in Inr (map (\<lambda>i. path_join (output_dir self)
                            (base_name self @ ''_part_'' @ format_03d (i + 1) @ ''.pdf''))
                  (range_up 0 num_splits 1)))"

definition get_split_ranges :: "FileManager \<Rightarrow> int \<Rightarrow> int \<Rightarrow> py_error + (int \<times> int) list" where
  "get_split_ranges self total_pages' pages_per_split =
     (case py_range 0 total_pages' pages_per_split of
        Inl e \<Rightarrow> Inl e
      | Inr starts \<Rightarrow>
          Inr (map (\<lambda>start.
                 let end = min (start + pages_per_split - 1) (total_pages' - 1)
                 in (start + 1, end + 1)) starts))"


text \<open>
  \<open>handle_filename_conflicts\<close> asks the storage whether a path exists; the storage is
  not changed while names are resolved, so it is the predicate \<open>path_exists\<close>. The inner
  \<open>while\<close> loop runs as long as the candidate exists and need not stop for an arbitrary
  predicate: not returning is the value \<open>None\<close>.
\<close>

partial_function (option) resolve_conflict ::
  "(path \<Rightarrow> bool) \<Rightarrow> path \<Rightarrow> path \<Rightarrow> int \<Rightarrow> path option" where
  "resolve_conflict path_exists original_path file_path counter =
     (if path_exists file_path then
        resolve_conflict path_exists original_path
          (path_join (parent original_path)
             (stem original_path @ ''_'' @ str_int counter @ suffix original_path))
          (counter + 1)
      else Some file_path)"

fun handle_filename_conflicts_loop ::
  "(path \<Rightarrow> bool) \<Rightarrow> path list \<Rightarrow> path list \<Rightarrow> path list option" where
  "handle_filename_conflicts_loop path_exists [] confirmed_files = Some confirmed_files"
| "handle_filename_conflicts_loop path_exists (file_path # rest) confirmed_files =
     (case resolve_conflict path_exists file_path file_path 1 of
        None \<Rightarrow> None
      | Some resolved \<Rightarrow>
          handle_filename_conflicts_loop path_exists rest (confirmed_files @ [resolved]))"

definition handle_filename_conflicts :: "(path \<Rightarrow> bool) \<Rightarrow> path list \<Rightarrow> path list option" where
  "handle_filename_conflicts path_exists output_files =
     handle_filename_conflicts_loop path_exists output_files []"

section \<open>\<open>pdf_splitter.py\<close>: \<open>split_pdf\<close>\<close>

text \<open>
  Indexing a Python list: a negative index counts from the end, an index out of range
  raises \<open>IndexError\<close>.
\<close>

definition py_getitem :: "'a list \<Rightarrow> int \<Rightarrow> py_error + 'a" where
  "py_getitem xs i =
     (let n = int (length xs);
          j = (if i < 0 then i + n else i)
      in if 0 \<le> j \<and> j < n then Inr (xs ! nat j) else Inl IndexError)"

text \<open>
  The inner loop \<open>for page_num in range(start_page - 1, end_page)\<close> adds the pages to a
  fresh writer, which is the list of pages added so far.
\<close>

fun add_pages :: "(py_error + 'p) list \<Rightarrow> int list \<Rightarrow> 'p list \<Rightarrow> py_error + 'p list" where
  "add_pages pages [] writer = Inr writer"
| "add_pages pages (page_num # rest) writer =
     (case py_getitem pages page_num of
        Inl e \<Rightarrow> Inl e
      | Inr (Inl e) \<Rightarrow> Inl e
      | Inr (Inr page) \<Rightarrow> add_pages pages rest (writer @ [page]))"

text \<open>
  The storage and the progress callback act on a world \<open>'w\<close>. Writing a file
  (\<open>open\<close> and \<open>writer.write\<close>) returns the new world and the exception it raised, if
  any. Console output is not part of the model. \<open>split_range\<close> is the body of the loop
  over \<open>enumerate(ranges)\<close>, \<open>split_loop\<close> the loop, which an exception leaves at once,
  and \<open>split_pdf\<close> the method with its \<open>try\<close>/\<open>except\<close>.
\<close>

type_synonym ('p, 'w) file_write = "path \<Rightarrow> 'p list \<Rightarrow> 'w \<Rightarrow> py_error option \<times> 'w"

type_synonym 'w progress = "int \<Rightarrow> int \<Rightarrow> string \<Rightarrow> 'w \<Rightarrow> 'w"

definition split_range ::
  "(py_error + 'p) list \<Rightarrow> path list \<Rightarrow> 'w progress option \<Rightarrow> ('p, 'w) file_write \<Rightarrow> int \<Rightarrow>
   nat \<times> int \<times> int \<Rightarrow> 'w \<Rightarrow> py_error option \<times> 'w" where
  "split_range pages output_files progress_callback write_file n_ranges item w =
     (case item of (i, start_page, end_page) \<Rightarrow>
        let w1 = (case progress_callback of
                    None \<Rightarrow> w
                  | Some cb \<Rightarrow> cb (int i + 1) n_ranges (''Creating part '' @ str_int (int i + 1)) w)
        in case add_pages pages (range_up (start_page - 1) end_page 1) [] of
             Inl e \<Rightarrow> (Some e, w1)
           | Inr writer \<Rightarrow>
               (case py_getitem output_files (int i) of
                  Inl e \<Rightarrow> (Some e, w1)
                | Inr output_file \<Rightarrow> write_file output_file writer w1))"

fun split_loop ::
  "(py_error + 'p) list \<Rightarrow> path list \<Rightarrow> 'w progress option \<Rightarrow> ('p, 'w) file_write \<Rightarrow> int \<Rightarrow>
   (nat \<times> int \<times> int) list \<Rightarrow> 'w \<Rightarrow> py_error option \<times> 'w" where
  "split_loop pages output_files progress_callback write_file n_ranges [] w = (None, w)"
| "split_loop pages output_files progress_callback write_file n_ranges (item # rest) w =
     (case split_range pages output_files progress_callback write_file n_ranges item w of
        (Some e, w') \<Rightarrow> (Some e, w')
      | (None, w') \<Rightarrow>
          split_loop pages output_files progress_callback write_file n_ranges rest w')"

definition split_pdf ::
  "'p PDFSplitter \<Rightarrow> int \<Rightarrow> path list \<Rightarrow> 'w progress option \<Rightarrow> ('p, 'w) file_write \<Rightarrow>
   'w \<Rightarrow> bool \<times> 'w" where
  "split_pdf self pages_per_split output_files progress_callback write_file w =
     (case reader self of
        None \<Rightarrow> (False, w)
      | Some pages \<Rightarrow>
          (case get_page_ranges self pages_per_split of
             Inl e \<Rightarrow> (False, w)
           | Inr ranges \<Rightarrow>
               (case split_loop pages output_files progress_callback write_file
                       (int (length ranges)) (enumerate 0 ranges) w of
                  (Some e, w') \<Rightarrow> (False, w')
                | (None, w') \<Rightarrow> (True, w'))))"

text \<open>A storage that records every file written, in order, and never fails.\<close>

definition recording_write :: "('p, (path \<times> 'p list) list) file_write" where
  "recording_write output_file writer files = (None, files @ [(output_file, writer)])"

section \<open>\<open>printer_manager.py\<close>: class \<open>PrinterManager\<close>\<close>

text \<open>
  \<open>str(path)\<close> joins the directory and the final component; the current directory
  \<open>.\<close> is not printed and the root is not followed by a second separator.
  \<open>lower\<close> is \<open>str.lower()\<close> on ASCII letters.
\<close>

definition path_str :: "path \<Rightarrow> string" where
  "path_str p =
     (if parent p = ''.'' then name p
      else if parent p = ''/'' then ''/'' @ name p
      else parent p @ ''/'' @ name p)"

definition lower_char :: "char \<Rightarrow> char" where
  "lower_char c = (if c \<in> set ''ABCDEFGHIJKLMNOPQRSTUVWXYZ''
                   then char_of (of_char c + (32 :: nat)) else c)"

definition lower :: "string \<Rightarrow> string" where
  "lower s = map lower_char s"

text \<open>
  The platform routines \<open>_print_windows\<close>, \<open>_print_mac\<close> and \<open>_print_linux\<close>, and the
  branch on \<open>self.system\<close> that selects one, are the parameter \<open>submit\<close>: it returns the
  new world and either the pair (success, message) or the text of an exception, which
  \<open>print_file\<close> catches. The lines printed on the console are not part of the model.
\<close>

type_synonym 'w submit =
  "path \<Rightarrow> string option \<Rightarrow> (string \<times> string) list \<Rightarrow> 'w \<Rightarrow> (string + bool \<times> string) \<times> 'w"

definition print_file ::
  "(path \<Rightarrow> bool) \<Rightarrow> 'w submit \<Rightarrow> path \<Rightarrow> string option \<Rightarrow> (string \<times> string) list \<Rightarrow> 'w \<Rightarrow>
   (bool \<times> string) \<times> 'w" where
  "print_file path_exists submit file_path printer_name print_options w =
     (if \<not> path_exists file_path then ((False, ''File not found: '' @ path_str file_path), w)
      else if \<not> lower (suffix file_path) = ''.pdf'' then
        ((False, ''Only PDF files are supported for printing''), w)
      else
        (case submit file_path printer_name print_options w of
           (Inr r, w') \<Rightarrow> (r, w')
         | (Inl e, w') \<Rightarrow> ((False, ''Print error: '' @ e), w')))"

fun print_loop ::
  "(path \<Rightarrow> bool) \<Rightarrow> 'w submit \<Rightarrow> string option \<Rightarrow> (string \<times> string) list \<Rightarrow>
   'w progress option \<Rightarrow> int \<Rightarrow> (nat \<times> path) list \<Rightarrow> (string \<rightharpoonup> bool \<times> string) \<Rightarrow> 'w \<Rightarrow>
   (string \<rightharpoonup> bool \<times> string) \<times> 'w" where
  "print_loop path_exists submit printer_name print_options progress_callback n [] results w =
     (results, w)"
| "print_loop path_exists submit printer_name print_options progress_callback n
     ((i, file_path) # rest) results w =
     (let w1 = (case progress_callback of
                  None \<Rightarrow> w
                | Some cb \<Rightarrow> cb (int i + 1) n (''Printing '' @ name file_path) w)
      in case print_file path_exists submit file_path printer_name print_options w1 of
           ((success, message), w2) \<Rightarrow>
             print_loop path_exists submit printer_name print_options progress_callback n rest
               (results(path_str file_path \<mapsto> (success, message))) w2)"

definition print_multiple_files ::
  "(path \<Rightarrow> bool) \<Rightarrow> 'w submit \<Rightarrow> path list \<Rightarrow> string option \<Rightarrow> (string \<times> string) list \<Rightarrow>
   'w progress option \<Rightarrow> 'w \<Rightarrow> (string \<rightharpoonup> bool \<times> string) \<times> 'w" where
  "print_multiple_files path_exists submit file_paths printer_name print_options
     progress_callback w =
     print_loop path_exists submit printer_name print_options progress_callback
       (int (length file_paths)) (enumerate 0 file_paths) Map.empty w"

text \<open>
  A print sink that records every submission, in order; the outcome of a submission may
  depend on the path and on the submissions made before it.
\<close>

definition recording_submit ::
  "(path list \<Rightarrow> path \<Rightarrow> string + bool \<times> string) \<Rightarrow> (path list) submit" where
  "recording_submit outcome file_path printer_name print_options submitted =
     (outcome submitted file_path, submitted @ [file_path])"

section \<open>Closed forms used in the proofs\<close>

text \<open>
  \<open>num_splits\<close> is the expression both classes use for the number of parts;
  \<open>plan\<close> is the list of ranges written without the loop.
\<close>

definition num_splits :: "int \<Rightarrow> int \<Rightarrow> int" where
  "num_splits units cap = (units + cap - 1) div cap"

definition plan :: "int \<Rightarrow> int \<Rightarrow> (int \<times> int) list" where
  "plan units cap =
     map (\<lambda>k. (int k * cap + 1, min ((int k + 1) * cap) units)) [0..<nat (num_splits units cap)]"

text \<open>Reading a decimal numeral back, to show that printing is injective.\<close>

definition digit_val :: "char \<Rightarrow> nat" where
  "digit_val c = length (takeWhile (\<lambda>x. x \<noteq> c) ''0123456789'')"

definition digits_val :: "string \<Rightarrow> nat" where
  "digits_val s = foldl (\<lambda>a c. 10 * a + digit_val c) 0 s"

text \<open>The name tried by \<open>handle_filename_conflicts\<close> at a counter value.\<close>

definition renamed :: "path \<Rightarrow> int \<Rightarrow> path" where
  "renamed original_path counter =
     path_join (parent original_path)
       (stem original_path @ ''_'' @ str_int counter @ suffix original_path)"

section \<open>Arithmetic of the range computation\<close>

declare range_up.simps [simp del] range_down.simps [simp del] digits.simps [simp del]

lemma range_up_closed:
  "0 < step \<Longrightarrow> range_up start stop step =
     map (\<lambda>k. start + int k * step) [0..<nat ((stop - start + step - 1) div step)]"
proof (induction start stop step rule: range_up.induct)
  case (1 start stop step)
  show ?case
  proof (cases "start < stop")
    case True
    have "(stop - start + step - 1) div step = ((stop - start - 1) + step) div step"
      by (simp add: algebra_simps)
    also have "\<dots> = (stop - start - 1) div step + 1"
      using 1(2) by simp
    finally have d: "(stop - start + step - 1) div step = (stop - start - 1) div step + 1" .
    have nn: "0 \<le> (stop - start - 1) div step"
      using True 1(2) by (simp add: pos_imp_zdiv_nonneg_iff)
    have n: "nat ((stop - start + step - 1) div step) = Suc (nat ((stop - start - 1) div step))"
      using d nn by simp
    have ih: "range_up (start + step) stop step =
        map (\<lambda>k. start + step + int k * step) [0..<nat ((stop - start - 1) div step)]"
      using 1(1)[OF _ 1(2)] True 1(2) by (simp add: algebra_simps)
    have "range_up start stop step = start # range_up (start + step) stop step"
      using True 1(2) by (subst range_up.simps) simp
    also have "\<dots> = map (\<lambda>k. start + int k * step) [0..<Suc (nat ((stop - start - 1) div step))]"
      unfolding ih map_upt_Suc by (simp add: algebra_simps)
    finally show ?thesis using n by simp
  next
    case False
    then have "stop - start + step - 1 < step" by simp
    then have "(stop - start + step - 1) div step \<le> 0"
      using 1(2) by (metis nle_le pos_imp_zdiv_nonneg_iff zdiv_eq_0_iff)
    with False show ?thesis by (subst range_up.simps) simp
  qed
qed

lemma num_splits_bounds:
  assumes "0 < cap"
  shows "(num_splits units cap - 1) * cap < units" and "units \<le> num_splits units cap * cap"
proof -
  have e: "units + cap - 1 = num_splits units cap * cap + (units + cap - 1) mod cap"
    unfolding num_splits_def by simp
  have r: "0 \<le> (units + cap - 1) mod cap" "(units + cap - 1) mod cap < cap"
    using assms by simp_all
  show "(num_splits units cap - 1) * cap < units" using e r by (simp add: algebra_simps)
  show "units \<le> num_splits units cap * cap" using e r by (simp add: algebra_simps)
qed

lemma num_splits_ge2: 
  assumes "0 < cap" "cap < units" shows "2 \<le> num_splits units cap"
proof (rule ccontr)
  assume "\<not> 2 \<le> num_splits units cap"
  then have "num_splits units cap \<le> 1" by simp
  then have "num_splits units cap * cap \<le> 1 * cap" using assms(1) by (intro mult_right_mono) simp_all
  with num_splits_bounds(2)[OF assms(1), of units] assms show False by simp
qed

lemma num_splits_ceiling:
  assumes "0 < cap"
  shows "\<lceil>real_of_int units / real_of_int cap\<rceil> = num_splits units cap"
proof (rule ceiling_unique)
  have c: "0 < real_of_int cap" using assms by simp
  have "real_of_int ((num_splits units cap - 1) * cap) < real_of_int units"
    using num_splits_bounds(1)[OF assms, of units] by (simp only: of_int_less_iff)
  then have "(real_of_int (num_splits units cap) - 1) * real_of_int cap < real_of_int units"
    by simp
  then show "real_of_int (num_splits units cap) - 1 < real_of_int units / real_of_int cap"
    using c by (simp only: pos_less_divide_eq)
  have "real_of_int units \<le> real_of_int (num_splits units cap * cap)"
    using num_splits_bounds(2)[OF assms, of units] by (simp only: of_int_le_iff)
  then have "real_of_int units \<le> real_of_int (num_splits units cap) * real_of_int cap"
    by simp
  then show "real_of_int units / real_of_int cap \<le> real_of_int (num_splits units cap)"
    using c by (simp only: pos_divide_le_eq)
qed

lemma ranges_closed:
  assumes "0 < cap"
  shows "map (\<lambda>start. (start + 1, min (start + cap - 1) (units - 1) + 1))
           (range_up 0 units cap)
         = map (\<lambda>k. (int k * cap + 1, min ((int k + 1) * cap) units))
             [0..<nat (num_splits units cap)]"
  unfolding range_up_closed[OF assms] num_splits_def
  by (simp add: algebra_simps min_def)


lemma length_plan: "length (plan units cap) = nat (num_splits units cap)"
  by (simp add: plan_def)

lemma plan_nth_inner:
  assumes "0 < cap" "Suc i < length (plan units cap)"
  shows "plan units cap ! i = (int i * cap + 1, (int i + 1) * cap)"
proof -
  have "int i + 1 \<le> num_splits units cap - 1" using assms(2) by (simp add: length_plan)
  then have "(int i + 1) * cap \<le> (num_splits units cap - 1) * cap"
    using assms(1) by (intro mult_right_mono) simp_all
  with num_splits_bounds(1)[OF assms(1), of units] have "(int i + 1) * cap \<le> units" by simp
  then show ?thesis using assms(2) by (simp add: plan_def)
qed

lemma plan_nth_last:
  assumes "0 < cap" "Suc i = length (plan units cap)"
  shows "plan units cap ! i = (int i * cap + 1, units)"
proof -
  have "int i + 1 = num_splits units cap" using assms(2) by (simp add: length_plan)
  with num_splits_bounds(2)[OF assms(1), of units] have "units \<le> (int i + 1) * cap" by simp
  then show ?thesis using assms(2) by (simp add: plan_def)
qed

lemma plan_nth_fst:
  "i < length (plan units cap) \<Longrightarrow> fst (plan units cap ! i) = int i * cap + 1"
  by (simp add: plan_def)


lemma plan_nth:
  "i < length (plan units cap) \<Longrightarrow>
     plan units cap ! i = (int i * cap + 1, min ((int i + 1) * cap) units)"
  by (simp add: plan_def)

lemma plan_nonempty:
  assumes "0 < cap" "cap < units" shows "plan units cap \<noteq> []"
  using num_splits_ge2[OF assms] length_plan[of units cap] by auto

lemma plan_hd:
  assumes "0 < cap" "cap < units" shows "fst (hd (plan units cap)) = 1"
proof -
  have "0 < length (plan units cap)" using plan_nonempty[OF assms] by simp
  then show ?thesis using plan_nth_fst[of 0 units cap] by (simp add: hd_conv_nth)
qed

lemma plan_last:
  assumes "0 < cap" "cap < units" shows "snd (last (plan units cap)) = units"
proof -
  have ne: "plan units cap \<noteq> []" by (rule plan_nonempty[OF assms])
  then have "Suc (length (plan units cap) - 1) = length (plan units cap)" by simp
  from plan_nth_last[OF assms(1) this] show ?thesis using ne by (simp add: last_conv_nth)
qed

lemma plan_contiguous:
  assumes "0 < cap" "Suc i < length (plan units cap)"
  shows "fst (plan units cap ! Suc i) = snd (plan units cap ! i) + 1"
  using plan_nth_inner[OF assms] plan_nth_fst[OF assms(2)] by (simp add: algebra_simps)

lemma plan_wellformed:
  assumes "0 < cap" "0 < units" "i < length (plan units cap)"
  shows "1 \<le> fst (plan units cap ! i)" "fst (plan units cap ! i) \<le> snd (plan units cap ! i)"
    "snd (plan units cap ! i) \<le> units"
proof -
  have n: "int i \<le> num_splits units cap - 1" using assms(3) by (simp add: length_plan)
  then have "int i * cap \<le> (num_splits units cap - 1) * cap"
    using assms(1) by (intro mult_right_mono) simp_all
  with num_splits_bounds(1)[OF assms(1), of units] have lt: "int i * cap < units" by simp
  have nn: "0 \<le> int i * cap" using assms(1) by simp
  show "1 \<le> fst (plan units cap ! i)" using nn by (simp add: plan_nth[OF assms(3)])
  show "fst (plan units cap ! i) \<le> snd (plan units cap ! i)"
    using lt assms(1) by (simp add: plan_nth[OF assms(3)] algebra_simps)
  show "snd (plan units cap ! i) \<le> units" by (simp add: plan_nth[OF assms(3)])
qed

lemma plan_disjoint:
  assumes "0 < cap" "i < j" "j < length (plan units cap)"
  shows "snd (plan units cap ! i) < fst (plan units cap ! j)"
proof -
  have "Suc i < length (plan units cap)" using assms by simp
  from plan_nth_inner[OF assms(1) this] have s: "snd (plan units cap ! i) = (int i + 1) * cap" by simp
  have "int i + 1 \<le> int j" using assms(2) by simp
  then have "(int i + 1) * cap \<le> int j * cap" using assms(1) by (intro mult_right_mono) simp_all
  then show ?thesis using s plan_nth_fst[OF assms(3)] by simp
qed

lemma plan_cover:
  assumes "0 < cap" "1 \<le> x" "x \<le> units"
  shows "\<exists>i < length (plan units cap). fst (plan units cap ! i) \<le> x \<and> x \<le> snd (plan units cap ! i)"
proof -
  define k where "k = (x - 1) div cap"
  have k0: "0 \<le> k" using assms by (simp add: k_def pos_imp_zdiv_nonneg_iff)
  have e: "x - 1 = k * cap + (x - 1) mod cap" by (simp add: k_def)
  have r: "0 \<le> (x - 1) mod cap" "(x - 1) mod cap < cap" using assms(1) by simp_all
  have lo: "k * cap + 1 \<le> x" using e r by simp
  have hi: "x \<le> (k + 1) * cap" using e r by (simp add: algebra_simps)
  have "k < num_splits units cap"
  proof (rule ccontr)
    assume "\<not> k < num_splits units cap"
    then have "num_splits units cap * cap \<le> k * cap"
      using assms(1) by (intro mult_right_mono) simp_all
    with num_splits_bounds(2)[OF assms(1), of units] lo assms(3) show False by simp
  qed
  then have len: "nat k < length (plan units cap)" using k0 by (simp add: length_plan)
  show ?thesis
    using lo hi assms(3) k0 by (intro exI[of _ "nat k"]) (simp add: len plan_nth[OF len])
qed

lemma plan_last_length:
  assumes "0 < cap" "cap < units"
  shows "snd (last (plan units cap)) - fst (last (plan units cap)) + 1
           = (if units mod cap = 0 then cap else units mod cap)"
proof -
  define n where "n = num_splits units cap"
  define L where "L = units - (n - 1) * cap"
  have ne: "plan units cap \<noteq> []" by (rule plan_nonempty[OF assms])
  then have i: "Suc (length (plan units cap) - 1) = length (plan units cap)" by simp
  have "int (length (plan units cap) - 1) = n - 1"
    using num_splits_ge2[OF assms] length_plan[of units cap] by (simp add: n_def)
  with plan_nth_last[OF assms(1) i] ne
  have "last (plan units cap) = ((n - 1) * cap + 1, units)" by (simp add: last_conv_nth)
  then have len: "snd (last (plan units cap)) - fst (last (plan units cap)) + 1 = L"
    by (simp add: L_def)
  have L1: "1 \<le> L" using num_splits_bounds(1)[OF assms(1), of units] by (simp add: L_def n_def)
  have L2: "L \<le> cap" using num_splits_bounds(2)[OF assms(1), of units]
    by (simp add: L_def n_def algebra_simps)
  have u: "units = L + (n - 1) * cap" by (simp add: L_def)
  have m: "units mod cap = L mod cap" by (subst u) simp
  show ?thesis
  proof (cases "L = cap")
    case True
    then show ?thesis using len m by simp
  next
    case False
    then have "L mod cap = L" using L1 L2 by simp
    then show ?thesis using len m L1 by simp
  qed
qed


lemma get_page_ranges_plan:
  "0 < cap \<Longrightarrow> get_page_ranges self cap = Inr (plan (total_pages self) cap)"
  by (simp add: get_page_ranges_def py_range_def ranges_closed plan_def)

lemma get_split_ranges_plan:
  "0 < cap \<Longrightarrow> get_split_ranges fm units cap = Inr (plan units cap)"
  by (simp add: get_split_ranges_def py_range_def ranges_closed plan_def)

lemma plan_20_8: "plan 20 8 = [(1, 8), (9, 16), (17, 20)]"
  by code_simp

section \<open>The partition plan\<close>

text \<open>
  C1. For \<open>0 < unit_cap < total_units\<close> both range computations
  (\<open>PDFSplitter._get_page_ranges\<close> and \<open>FileManager.get_split_ranges\<close>) return a list
  \<open>rs\<close> of 1-indexed inclusive ranges that starts at 1, ends at \<open>total_units\<close>, is
  contiguous (each range starts one past the end of the previous one), has no empty
  range and no two overlapping ranges, covers exactly the units \<open>1..total_units\<close>, and
  has \<open>ceil(total_units / unit_cap)\<close> ranges. For 20 units and a cap of 8 the list is
  \<open>[(1,8),(9,16),(17,20)]\<close>.
\<close>

theorem page_ranges_partition:
  "(0 < unit_cap \<and> unit_cap < total_pages self \<longrightarrow>
     (\<exists>rs. get_page_ranges self unit_cap = Inr rs
        \<and> get_split_ranges fm (total_pages self) unit_cap = Inr rs
        \<and> rs \<noteq> [] \<and> fst (hd rs) = 1 \<and> snd (last rs) = total_pages self
        \<and> (\<forall>i. Suc i < length rs \<longrightarrow> fst (rs ! Suc i) = snd (rs ! i) + 1)
        \<and> (\<forall>i. i < length rs \<longrightarrow> fst (rs ! i) \<le> snd (rs ! i))
        \<and> (\<forall>i j. i < j \<and> j < length rs \<longrightarrow>
              {fst (rs ! i)..snd (rs ! i)} \<inter> {fst (rs ! j)..snd (rs ! j)} = {})
        \<and> (\<Union>(a, b)\<in>set rs. {a..b}) = {1..total_pages self}
        \<and> int (length rs) = \<lceil>real_of_int (total_pages self) / real_of_int unit_cap\<rceil>))
   \<and> get_page_ranges (self\<lparr>total_pages := 20\<rparr>) 8 = Inr [(1, 8), (9, 16), (17, 20)]
   \<and> get_split_ranges fm 20 8 = Inr [(1, 8), (9, 16), (17, 20)]"
proof (intro conjI impI)
  assume a: "0 < unit_cap \<and> unit_cap < total_pages self"
  then have cap: "0 < unit_cap" and lt: "unit_cap < total_pages self" by simp_all
  then have pos: "0 < total_pages self" by simp
  let ?rs = "plan (total_pages self) unit_cap"
  have 1: "get_page_ranges self unit_cap = Inr ?rs" by (rule get_page_ranges_plan[OF cap])
  have 2: "get_split_ranges fm (total_pages self) unit_cap = Inr ?rs"
    by (rule get_split_ranges_plan[OF cap])
  have 3: "?rs \<noteq> []" by (rule plan_nonempty[OF cap lt])
  have 4: "fst (hd ?rs) = 1" by (rule plan_hd[OF cap lt])
  have 5: "snd (last ?rs) = total_pages self" by (rule plan_last[OF cap lt])
  have 6: "\<forall>i. Suc i < length ?rs \<longrightarrow> fst (?rs ! Suc i) = snd (?rs ! i) + 1"
    using plan_contiguous[OF cap] by blast
  have 7: "\<forall>i. i < length ?rs \<longrightarrow> fst (?rs ! i) \<le> snd (?rs ! i)"
    using plan_wellformed(2)[OF cap pos] by blast
  have 8: "\<forall>i j. i < j \<and> j < length ?rs \<longrightarrow>
              {fst (?rs ! i)..snd (?rs ! i)} \<inter> {fst (?rs ! j)..snd (?rs ! j)} = {}"
  proof (intro allI impI)
    fix i j assume "i < j \<and> j < length ?rs"
    then have "snd (?rs ! i) < fst (?rs ! j)" using plan_disjoint[OF cap] by blast
    then show "{fst (?rs ! i)..snd (?rs ! i)} \<inter> {fst (?rs ! j)..snd (?rs ! j)} = {}"
      by auto
  qed
  have 9: "(\<Union>(a, b)\<in>set ?rs. {a..b}) = {1..total_pages self}"
  proof (intro set_eqI iffI)
    fix x assume "x \<in> (\<Union>(a, b)\<in>set ?rs. {a..b})"
    then obtain a b where ab: "(a, b) \<in> set ?rs" and x: "a \<le> x" "x \<le> b" by auto
    from ab obtain i where i: "i < length ?rs" and e: "?rs ! i = (a, b)"
      by (auto simp: in_set_conv_nth)
    from plan_wellformed(1)[OF cap pos i] plan_wellformed(3)[OF cap pos i] e x
    show "x \<in> {1..total_pages self}" by simp
  next
    fix x assume "x \<in> {1..total_pages self}"
    then have "1 \<le> x" "x \<le> total_pages self" by simp_all
    from plan_cover[OF cap this] obtain i where i: "i < length ?rs"
      and x: "fst (?rs ! i) \<le> x" "x \<le> snd (?rs ! i)" by blast
    have "?rs ! i \<in> set ?rs" using i by simp
    then have "(fst (?rs ! i), snd (?rs ! i)) \<in> set ?rs" by simp
    then show "x \<in> (\<Union>(a, b)\<in>set ?rs. {a..b})" using x by fastforce
  qed
  have 10: "int (length ?rs) = \<lceil>real_of_int (total_pages self) / real_of_int unit_cap\<rceil>"
    using num_splits_ge2[OF cap lt] by (simp add: num_splits_ceiling[OF cap] length_plan)
  show "\<exists>rs. get_page_ranges self unit_cap = Inr rs
        \<and> get_split_ranges fm (total_pages self) unit_cap = Inr rs
        \<and> rs \<noteq> [] \<and> fst (hd rs) = 1 \<and> snd (last rs) = total_pages self
        \<and> (\<forall>i. Suc i < length rs \<longrightarrow> fst (rs ! Suc i) = snd (rs ! i) + 1)
        \<and> (\<forall>i. i < length rs \<longrightarrow> fst (rs ! i) \<le> snd (rs ! i))
        \<and> (\<forall>i j. i < j \<and> j < length rs \<longrightarrow>
              {fst (rs ! i)..snd (rs ! i)} \<inter> {fst (rs ! j)..snd (rs ! j)} = {})
        \<and> (\<Union>(a, b)\<in>set rs. {a..b}) = {1..total_pages self}
        \<and> int (length rs) = \<lceil>real_of_int (total_pages self) / real_of_int unit_cap\<rceil>"
    by (intro exI[of _ ?rs] conjI; fact)
next
  show "get_page_ranges (self\<lparr>total_pages := 20\<rparr>) 8 = Inr [(1, 8), (9, 16), (17, 20)]"
    by (simp add: get_page_ranges_plan plan_20_8)
next
  show "get_split_ranges fm 20 8 = Inr [(1, 8), (9, 16), (17, 20)]"
    by (simp add: get_split_ranges_plan plan_20_8)
qed

theorem page_ranges_partition_witness:
  "(0::int) < 3 \<and> (3::int) < 9
   \<and> get_page_ranges (\<lparr>input_file = path_join ''.'' ''doc.pdf'', reader = None,
                         total_pages = 9\<rparr> :: unit PDFSplitter) 3
       = Inr [(1, 3), (4, 6), (7, 9)]
   \<and> int (length [(1::int, 3::int), (4, 6), (7, 9)]) = \<lceil>real_of_int 9 / real_of_int 3\<rceil>"
proof -
  let ?s = "\<lparr>input_file = path_join ''.'' ''doc.pdf'', reader = None, total_pages = 9\<rparr>
              :: unit PDFSplitter"
  let ?fm = "\<lparr>fm_input_file = path_join ''.'' ''doc.pdf'', output_dir = ''.'',
               base_name = ''doc''\<rparr>"
  have h: "(0::int) < 3 \<and> 3 < total_pages ?s" by simp
  have e: "get_page_ranges ?s 3 = Inr [(1, 3), (4, 6), (7, 9)]"
    by (simp add: get_page_ranges_def py_range_def range_up.simps)
  note t = page_ranges_partition[of 3 ?s ?fm, THEN conjunct1, THEN mp, OF h]
  from t obtain rs where r: "get_page_ranges ?s 3 = Inr rs"
    and l: "int (length rs) = \<lceil>real_of_int (total_pages ?s) / real_of_int 3\<rceil>"
    by (elim exE conjE) (rule that; assumption)
  from r e have "rs = [(1, 3), (4, 6), (7, 9)]" by simp
  with l have "int (length [(1::int, 3::int), (4, 6), (7, 9)])
      = \<lceil>real_of_int (total_pages ?s) / real_of_int 3\<rceil>" by simp
  then have "int (length [(1::int, 3::int), (4, 6), (7, 9)])
      = \<lceil>real_of_int 9 / real_of_int 3\<rceil>" by simp
  with e show ?thesis by simp
qed

section \<open>Parameter validation\<close>

text \<open>
  C2. \<open>validate_split_parameters\<close> rejects exactly the invalid caps: it returns
  \<open>False\<close> with a non-empty error message when \<open>pages_per_split \<le> 0\<close> and when
  \<open>pages_per_split \<ge> total_pages\<close>, and \<open>(True, "")\<close> for every
  \<open>0 < pages_per_split < total_pages\<close>.
\<close>

theorem validate_split_parameters_exact:
  "(pages_per_split \<le> 0 \<or> total_pages self \<le> pages_per_split \<longrightarrow>
      fst (validate_split_parameters self pages_per_split) = False
      \<and> snd (validate_split_parameters self pages_per_split) \<noteq> '''')
   \<and> (0 < pages_per_split \<and> pages_per_split < total_pages self \<longrightarrow>
      validate_split_parameters self pages_per_split = (True, ''''))"
  by (simp add: validate_split_parameters_def)

theorem validate_split_parameters_exact_witness:
  "((0::int) \<le> 0 \<or> (20::int) \<le> 0)
   \<and> fst (validate_split_parameters (\<lparr>input_file = path_join ''.'' ''doc.pdf'', reader = None,
          total_pages = 20\<rparr> :: unit PDFSplitter) 0) = False
   \<and> ((20::int) \<le> 0 \<or> (20::int) \<le> 20)
   \<and> snd (validate_split_parameters (\<lparr>input_file = path_join ''.'' ''doc.pdf'', reader = None,
          total_pages = 20\<rparr> :: unit PDFSplitter) 20) \<noteq> ''''
   \<and> ((0::int) < 8 \<and> (8::int) < 20)
   \<and> validate_split_parameters (\<lparr>input_file = path_join ''.'' ''doc.pdf'', reader = None,
          total_pages = 20\<rparr> :: unit PDFSplitter) 8 = (True, '''')"
proof -
  let ?s = "\<lparr>input_file = path_join ''.'' ''doc.pdf'', reader = None, total_pages = 20\<rparr>
              :: unit PDFSplitter"
  have a: "fst (validate_split_parameters ?s 0) = False"
    using validate_split_parameters_exact[of 0 ?s] by simp
  have b: "snd (validate_split_parameters ?s 20) \<noteq> ''''"
    using validate_split_parameters_exact[of 20 ?s] by simp
  have c: "validate_split_parameters ?s 8 = (True, '''')"
    using validate_split_parameters_exact[of 8 ?s] by simp
  from a b c show ?thesis by simp
qed

section \<open>Sizes of the ranges\<close>

text \<open>
  C6. For \<open>0 < unit_cap < total_units\<close> every range of the plan except the last has
  exactly \<open>unit_cap\<close> pages, the last range has between 1 and \<open>unit_cap\<close> pages, and
  \<open>calculate_split_info\<close> reports as \<open>last_split_pages\<close> the length of the last range,
  which is \<open>total_units mod unit_cap\<close>, or \<open>unit_cap\<close> when that remainder is 0.
\<close>

theorem range_lengths:
  "0 < unit_cap \<and> unit_cap < total_pages self \<longrightarrow>
     (\<exists>rs info. get_page_ranges self unit_cap = Inr rs
        \<and> calculate_split_info self unit_cap = Inr info
        \<and> si_ranges info = rs \<and> rs \<noteq> []
        \<and> (\<forall>i. Suc i < length rs \<longrightarrow> snd (rs ! i) - fst (rs ! i) + 1 = unit_cap)
        \<and> 1 \<le> snd (last rs) - fst (last rs) + 1
        \<and> snd (last rs) - fst (last rs) + 1 \<le> unit_cap
        \<and> si_last_split_pages info = snd (last rs) - fst (last rs) + 1
        \<and> si_last_split_pages info =
            (if total_pages self mod unit_cap = 0 then unit_cap
             else total_pages self mod unit_cap))"
proof
  assume a: "0 < unit_cap \<and> unit_cap < total_pages self"
  then have cap: "0 < unit_cap" and lt: "unit_cap < total_pages self" by simp_all
  let ?rs = "plan (total_pages self) unit_cap"
  let ?l = "if total_pages self mod unit_cap = 0 then unit_cap
            else total_pages self mod unit_cap"
  let ?info = "\<lparr>si_total_pages = total_pages self, si_pages_per_split = unit_cap,
      si_num_splits = (total_pages self + unit_cap - 1) div unit_cap,
      si_last_split_pages = ?l, si_ranges = ?rs\<rparr>"
  have 1: "get_page_ranges self unit_cap = Inr ?rs" by (rule get_page_ranges_plan[OF cap])
  have 2: "calculate_split_info self unit_cap = Inr ?info"
    using cap by (simp add: calculate_split_info_def 1 Let_def)
  have 3: "si_ranges ?info = ?rs" by simp
  have 4: "?rs \<noteq> []" by (rule plan_nonempty[OF cap lt])
  have 5: "\<forall>i. Suc i < length ?rs \<longrightarrow> snd (?rs ! i) - fst (?rs ! i) + 1 = unit_cap"
  proof (intro allI impI)
    fix i assume "Suc i < length ?rs"
    from plan_nth_inner[OF cap this]
    show "snd (?rs ! i) - fst (?rs ! i) + 1 = unit_cap" by (simp add: algebra_simps)
  qed
  have len: "snd (last ?rs) - fst (last ?rs) + 1 = ?l"
    by (rule plan_last_length[OF cap lt])
  define r where "r = total_pages self mod unit_cap"
  have m: "0 \<le> r" "r < unit_cap" using cap by (simp_all add: r_def)
  have len': "snd (last ?rs) - fst (last ?rs) + 1 = (if r = 0 then unit_cap else r)"
    using len by (simp add: r_def)
  have 6: "1 \<le> snd (last ?rs) - fst (last ?rs) + 1"
    using m cap by (simp add: len')
  have 7: "snd (last ?rs) - fst (last ?rs) + 1 \<le> unit_cap"
    using m cap by (simp add: len')
  have 8: "si_last_split_pages ?info = snd (last ?rs) - fst (last ?rs) + 1"
    unfolding len by simp
  have 9: "si_last_split_pages ?info = ?l" by simp
  show "\<exists>rs info. get_page_ranges self unit_cap = Inr rs
        \<and> calculate_split_info self unit_cap = Inr info
        \<and> si_ranges info = rs \<and> rs \<noteq> []
        \<and> (\<forall>i. Suc i < length rs \<longrightarrow> snd (rs ! i) - fst (rs ! i) + 1 = unit_cap)
        \<and> 1 \<le> snd (last rs) - fst (last rs) + 1
        \<and> snd (last rs) - fst (last rs) + 1 \<le> unit_cap
        \<and> si_last_split_pages info = snd (last rs) - fst (last rs) + 1
        \<and> si_last_split_pages info =
            (if total_pages self mod unit_cap = 0 then unit_cap
             else total_pages self mod unit_cap)"
    by (intro exI[of _ ?rs] exI[of _ ?info] conjI; fact)
qed

theorem range_lengths_witness:
  "(0::int) < 8 \<and> (8::int) < 20
   \<and> (\<exists>info. calculate_split_info (\<lparr>input_file = path_join ''.'' ''doc.pdf'', reader = None,
          total_pages = 20\<rparr> :: unit PDFSplitter) 8 = Inr info
        \<and> si_ranges info = [(1, 8), (9, 16), (17, 20)]
        \<and> si_last_split_pages info = 4)"
proof -
  let ?s = "\<lparr>input_file = path_join ''.'' ''doc.pdf'', reader = None, total_pages = 20\<rparr>
              :: unit PDFSplitter"
  have h: "(0::int) < 8 \<and> 8 < total_pages ?s" by simp
  have e: "get_page_ranges ?s 8 = Inr [(1, 8), (9, 16), (17, 20)]"
    by (simp add: get_page_ranges_def py_range_def range_up.simps)
  from range_lengths[of 8 ?s, THEN mp, OF h]
  obtain rs info where r: "get_page_ranges ?s 8 = Inr rs"
    and i: "calculate_split_info ?s 8 = Inr info" "si_ranges info = rs"
    and l: "si_last_split_pages info = snd (last rs) - fst (last rs) + 1"
    by (elim exE conjE) (rule that; assumption)
  from r e have rs: "rs = [(1, 8), (9, 16), (17, 20)]" by simp
  from l have "si_last_split_pages info = 4" unfolding rs by simp
  with i rs show ?thesis by simp
qed

section \<open>The two range computations agree\<close>

text \<open>
  C10. \<open>PDFSplitter._get_page_ranges(pages_per_split)\<close> on a document of
  \<open>total_pages\<close> pages and \<open>FileManager.get_split_ranges(total_pages, pages_per_split)\<close>
  give the same result; for \<open>total_pages \<ge> 0\<close> and \<open>pages_per_split \<ge> 1\<close> that result
  is a list of ranges (neither call raises).
\<close>

theorem range_computations_agree:
  "0 \<le> total_pages self \<and> 1 \<le> pages_per_split \<longrightarrow>
     (\<exists>rs. get_page_ranges self pages_per_split = Inr rs
        \<and> get_split_ranges fm (total_pages self) pages_per_split = Inr rs)"
proof
  assume "0 \<le> total_pages self \<and> 1 \<le> pages_per_split"
  then have cap: "0 < pages_per_split" by simp
  show "\<exists>rs. get_page_ranges self pages_per_split = Inr rs
        \<and> get_split_ranges fm (total_pages self) pages_per_split = Inr rs"
    using get_page_ranges_plan[OF cap, of self]
      get_split_ranges_plan[OF cap, of fm "total_pages self"] by simp
qed

theorem range_computations_agree_witness:
  "(0::int) \<le> 20 \<and> (1::int) \<le> 8
   \<and> get_split_ranges \<lparr>fm_input_file = path_join ''.'' ''doc.pdf'', output_dir = ''out'',
        base_name = ''doc''\<rparr> 20 8
     = get_page_ranges (\<lparr>input_file = path_join ''.'' ''doc.pdf'', reader = None,
          total_pages = 20\<rparr> :: unit PDFSplitter) 8"
proof -
  let ?s = "\<lparr>input_file = path_join ''.'' ''doc.pdf'', reader = None, total_pages = 20\<rparr>
              :: unit PDFSplitter"
  let ?fm = "\<lparr>fm_input_file = path_join ''.'' ''doc.pdf'', output_dir = ''out'',
               base_name = ''doc''\<rparr>"
  have h: "0 \<le> total_pages ?s \<and> (1::int) \<le> 8" by simp
  from range_computations_agree[of ?s 8 ?fm, THEN mp, OF h]
  obtain rs where "get_page_ranges ?s 8 = Inr rs"
    and "get_split_ranges ?fm (total_pages ?s) 8 = Inr rs"
    by (elim exE conjE) (rule that; assumption)
  then show ?thesis by simp
qed

section \<open>Printing integers and reading names\<close>

lemma digit_cases: "d < 10 \<Longrightarrow> d = 0 \<or> d = 1 \<or> d = 2 \<or> d = 3 \<or> d = 4 \<or> d = 5 \<or> d = 6 \<or> d = 7 \<or> d = 8 \<or> d = (9::nat)"
  by arith

lemma digit_val_digit_char: "d < 10 \<Longrightarrow> digit_val (digit_char d) = d"
  using digit_cases[of d] by (auto simp: digit_val_def digit_char_def)

lemma digit_char_not_underscore: "d < 10 \<Longrightarrow> digit_char d \<noteq> CHR ''_''"
  using digit_cases[of d] by (auto simp: digit_char_def)

lemma digits_val_snoc: "digits_val (s @ [c]) = 10 * digits_val s + digit_val c"
  by (simp add: digits_val_def)

lemma digits_val_digits: "digits_val (digits n) = n"
proof (induction n rule: digits.induct)
  case (1 n)
  show ?case
  proof (cases "n < 10")
    case True
    then show ?thesis
      by (subst digits.simps) (simp add: digits_val_def digit_val_digit_char)
  next
    case False
    then have "digits_val (digits n) = 10 * digits_val (digits (n div 10)) + digit_val (digit_char (n mod 10))"
      by (subst digits.simps) (simp add: digits_val_snoc)
    also have "\<dots> = 10 * (n div 10) + n mod 10"
      using 1[OF False] by (simp add: digit_val_digit_char)
    finally show ?thesis by simp
  qed
qed

lemma digits_inj: "digits m = digits n \<Longrightarrow> m = n"
  by (metis digits_val_digits)

lemma digits_no_underscore: "CHR ''_'' \<notin> set (digits n)"
proof (induction n rule: digits.induct)
  case (1 n)
  show ?case
  proof (cases "n < 10")
    case True
    then show ?thesis
      using digit_char_not_underscore[of n] by (subst digits.simps) auto
  next
    case False
    then show ?thesis
      using 1[OF False] digit_char_not_underscore[of "n mod 10"]
      by (subst digits.simps) auto
  qed
qed

lemma digits_val_zeros: "digits_val (replicate k (CHR ''0'') @ s) = digits_val s"
proof -
  have "foldl (\<lambda>a c. 10 * a + digit_val c) 0 (replicate k (CHR ''0'')) = 0"
    by (induction k) (simp_all add: digit_val_def)
  then show ?thesis by (simp add: digits_val_def)
qed

lemma format_03d_nonneg:
  "0 \<le> i \<Longrightarrow> format_03d i = replicate (3 - length (digits (nat i))) (CHR ''0'') @ digits (nat i)"
  by (simp add: format_03d_def Let_def)

lemma format_03d_inj:
  assumes "0 \<le> i" "0 \<le> j" "format_03d i = format_03d j" shows "i = j"
proof -
  have "digits_val (format_03d i) = nat i" "digits_val (format_03d j) = nat j"
    using assms(1,2) by (simp_all add: format_03d_nonneg digits_val_zeros digits_val_digits)
  with assms show ?thesis by simp
qed

lemma format_03d_no_underscore: "0 \<le> i \<Longrightarrow> CHR ''_'' \<notin> set (format_03d i)"
  using digits_no_underscore[of "nat i"] by (auto simp: format_03d_nonneg)

lemma str_int_inj:
  assumes "0 \<le> i" "0 \<le> j" "str_int i = str_int j" shows "i = j"
  using assms digits_inj[of "nat i" "nat j"] by (simp add: str_int_def)

lemma rfind_pdf: "rfind (CHR ''.'') (x @ ''.pdf'') = int (length x)"
  by (simp add: rfind_def)

lemma stem_pdf: "x \<noteq> [] \<Longrightarrow> stem (path_join d (x @ ''.pdf'')) = x"
  by (simp add: stem_def path_join_def rfind_pdf)

lemma suffix_pdf: "x \<noteq> [] \<Longrightarrow> suffix (path_join d (x @ ''.pdf'')) = ''.pdf''"
  by (simp add: suffix_def path_join_def rfind_pdf)

lemma range_up_count: "range_up 0 n 1 = map int [0..<nat n]"
  using range_up_closed[of 1 0 n] by simp

section \<open>The conflict loop\<close>

lemma renamed_parts:
  "name (renamed p n) = stem p @ ''_'' @ str_int n @ suffix p" "parent (renamed p n) = parent p"
  by (simp_all add: renamed_def path_join_def)

lemma renamed_inj:
  assumes "0 \<le> i" "0 \<le> j" "renamed p i = renamed p j" shows "i = j"
proof -
  from assms(3) have "name (renamed p i) = name (renamed p j)" by simp
  then have "str_int i = str_int j" by (simp add: renamed_parts)
  with assms(1,2) show ?thesis by (rule str_int_inj)
qed

lemma free_name_exists:
  assumes "finite {q. path_exists q}" "0 \<le> c"
  shows "\<exists>n. c \<le> n \<and> \<not> path_exists (renamed p n)"
proof (rule ccontr)
  assume "\<not> (\<exists>n. c \<le> n \<and> \<not> path_exists (renamed p n))"
  then have "renamed p ` {c..} \<subseteq> {q. path_exists q}" by auto
  then have f: "finite (renamed p ` {c..})" using assms(1) by (rule finite_subset)
  have "inj_on (renamed p) {c..}"
    using assms(2) by (intro inj_onI) (auto intro: renamed_inj)
  with f have "finite {c..}" by (rule finite_imageD)
  then show False by (simp add: infinite_Ici)
qed

lemma resolve_conflict_free: "\<not> path_exists q \<Longrightarrow> resolve_conflict path_exists p q c = Some q"
  by (subst resolve_conflict.simps) simp

lemma resolve_conflict_taken:
  "path_exists q \<Longrightarrow>
     resolve_conflict path_exists p q c = resolve_conflict path_exists p (renamed p c) (c + 1)"
  by (subst resolve_conflict.simps) (simp add: renamed_def)

lemma resolve_conflict_from:
  assumes "\<not> path_exists (renamed p n)" "c \<le> n"
  shows "\<exists>k. c \<le> k \<and> k \<le> n
           \<and> resolve_conflict path_exists p (renamed p c) (c + 1) = Some (renamed p k)
           \<and> \<not> path_exists (renamed p k)
           \<and> (\<forall>j. c \<le> j \<and> j < k \<longrightarrow> path_exists (renamed p j))"
  using assms
proof (induction "nat (n - c)" arbitrary: c)
  case 0
  then have "c = n" by simp
  with 0 show ?case by (intro exI[of _ n]) (auto simp: resolve_conflict_free)
next
  case (Suc m)
  show ?case
  proof (cases "path_exists (renamed p c)")
    case False
    with Suc.prems show ?thesis by (intro exI[of _ c]) (auto simp: resolve_conflict_free)
  next
    case True
    have "m = nat (n - (c + 1))" "c + 1 \<le> n" using Suc.hyps(2) by simp_all
    from Suc.hyps(1)[where c = "c + 1"] this Suc.prems(1)
    obtain k where k: "c + 1 \<le> k" "k \<le> n"
      "resolve_conflict path_exists p (renamed p (c + 1)) (c + 1 + 1) = Some (renamed p k)"
      "\<not> path_exists (renamed p k)"
      "\<forall>j. c + 1 \<le> j \<and> j < k \<longrightarrow> path_exists (renamed p j)" by blast
    have r: "resolve_conflict path_exists p (renamed p c) (c + 1) = Some (renamed p k)"
      using k(3) True
        resolve_conflict_taken[where path_exists = path_exists and q = "renamed p c" and p = p
          and c = "c + 1"]
      by simp
    have "\<forall>j. c \<le> j \<and> j < k \<longrightarrow> path_exists (renamed p j)"
    proof (intro allI impI)
      fix j assume j: "c \<le> j \<and> j < k"
      show "path_exists (renamed p j)"
      proof (cases "j = c")
        case True
        then show ?thesis using \<open>path_exists (renamed p c)\<close> by simp
      next
        case False
        with j have "c + 1 \<le> j \<and> j < k" by simp
        with k(5) show ?thesis by blast
      qed
    qed
    with k r show ?thesis by (intro exI[of _ k]) simp
  qed
qed

lemma resolve_conflict_result:
  assumes "path_exists p" "\<not> path_exists (renamed p n)" "1 \<le> n"
  shows "\<exists>k. 1 \<le> k \<and> k \<le> n
           \<and> resolve_conflict path_exists p p 1 = Some (renamed p k)
           \<and> \<not> path_exists (renamed p k)
           \<and> (\<forall>j. 1 \<le> j \<and> j < k \<longrightarrow> path_exists (renamed p j))"
  using resolve_conflict_from[where path_exists = path_exists and p = p and n = n and c = 1]
    assms resolve_conflict_taken[where path_exists = path_exists and q = p and p = p and c = 1]
  by simp

lemma resolve_conflict_total:
  assumes "finite {q. path_exists q}"
  shows "\<exists>q. resolve_conflict path_exists p p 1 = Some q
           \<and> (q = p \<or> (\<exists>k. 1 \<le> k \<and> q = renamed p k))"
proof (cases "path_exists p")
  case False
  then show ?thesis by (simp add: resolve_conflict_free)
next
  case True
  from free_name_exists[OF assms, of 1 p] obtain n where "1 \<le> n" "\<not> path_exists (renamed p n)"
    by auto
  from resolve_conflict_result[where path_exists = path_exists and p = p and n = n] True this
  show ?thesis by blast
qed

lemma conflicts_loop_iff:
  "handle_filename_conflicts_loop path_exists ps acc = Some qs \<longleftrightarrow>
     (\<exists>rs. qs = acc @ rs \<and> list_all2 (\<lambda>p r. resolve_conflict path_exists p p 1 = Some r) ps rs)"
proof (induction ps arbitrary: acc)
  case Nil
  show ?case by auto
next
  case (Cons p ps)
  show ?case
  proof (cases "resolve_conflict path_exists p p 1")
    case None
    then show ?thesis by (simp add: list_all2_Cons1)
  next
    case (Some r)
    then show ?thesis using Cons[of "acc @ [r]"] by (auto simp: list_all2_Cons1)
  qed
qed

lemma handle_filename_conflicts_iff:
  "handle_filename_conflicts path_exists ps = Some qs \<longleftrightarrow>
     list_all2 (\<lambda>p r. resolve_conflict path_exists p p 1 = Some r) ps qs"
  by (simp add: handle_filename_conflicts_def conflicts_loop_iff)

lemma handle_filename_conflicts_total:
  assumes "finite {q. path_exists q}"
  shows "\<exists>qs. handle_filename_conflicts path_exists ps = Some qs"
proof -
  have "\<exists>qs. list_all2 (\<lambda>p r. resolve_conflict path_exists p p 1 = Some r) ps qs"
  proof (induction ps)
    case Nil
    show ?case by simp
  next
    case (Cons p ps)
    from resolve_conflict_total[OF assms, of p] obtain q
      where "resolve_conflict path_exists p p 1 = Some q" by blast
    with Cons show ?case by (auto simp: list_all2_Cons1)
  qed
  then show ?thesis by (simp add: handle_filename_conflicts_iff)
qed

section \<open>Generated and resolved names\<close>

lemma generate_output_filenames_closed:
  "pages_per_split \<noteq> 0 \<Longrightarrow>
     generate_output_filenames self units pages_per_split =
       Inr (map (\<lambda>k. path_join (output_dir self)
                   (base_name self @ ''_part_'' @ format_03d (int k + 1) @ ''.pdf''))
              [0..<nat ((units + pages_per_split - 1) div pages_per_split)])"
  by (simp add: generate_output_filenames_def range_up_count comp_def)

lemma generated_names_inj:
  assumes "path_join d (b @ ''_part_'' @ format_03d (int i + 1) @ ''.pdf'')
         = path_join d (b @ ''_part_'' @ format_03d (int j + 1) @ ''.pdf'')"
  shows "i = j"
proof -
  from assms have "format_03d (int i + 1) = format_03d (int j + 1)"
    by (simp add: path_join_def)
  then have "int i + 1 = int j + 1" by (rule format_03d_inj[rotated 2]) simp_all
  then show ?thesis by simp
qed

lemma generated_stem:
  "stem (path_join d (b @ ''_part_'' @ format_03d i @ ''.pdf'')) = b @ ''_part_'' @ format_03d i"
  using stem_pdf[of "b @ ''_part_'' @ format_03d i" d] by simp

lemma generated_suffix:
  "suffix (path_join d (b @ ''_part_'' @ format_03d i @ ''.pdf'')) = ''.pdf''"
  using suffix_pdf[of "b @ ''_part_'' @ format_03d i" d] by simp

lemma prefix_unique:
  assumes "c \<notin> set f" "c \<notin> set f'" "t = [] \<or> hd t = c" "t' = [] \<or> hd t' = c"
    "f @ t = f' @ t'"
  shows "f = f'"
proof -
  have tw0: "takeWhile (\<lambda>x. x \<noteq> c) u = []" if "u = [] \<or> hd u = c" for u
    using that by (cases u) auto
  have tw: "takeWhile (\<lambda>x. x \<noteq> c) (g @ u) = g" if "c \<notin> set g" "u = [] \<or> hd u = c" for g u
    using that(1) tw0[OF that(2)] by (induction g) auto
  have a: "takeWhile (\<lambda>x. x \<noteq> c) (f @ t) = f" using assms(1,3) by (rule tw)
  have b: "takeWhile (\<lambda>x. x \<noteq> c) (f' @ t') = f'" using assms(2,4) by (rule tw)
  from a b assms(5) show ?thesis by simp
qed

lemma resolved_name_form:
  assumes "finite {q. path_exists q}"
    and "resolve_conflict path_exists
           (path_join d (b @ ''_part_'' @ format_03d i @ ''.pdf''))
           (path_join d (b @ ''_part_'' @ format_03d i @ ''.pdf'')) 1 = Some q"
  shows "\<exists>t. (t = [] \<or> hd t = CHR ''_'') \<and> name q = b @ ''_part_'' @ format_03d i @ t @ ''.pdf''"
proof -
  let ?p = "path_join d (b @ ''_part_'' @ format_03d i @ ''.pdf'')"
  from resolve_conflict_total[OF assms(1), of ?p] assms(2)
  have "q = ?p \<or> (\<exists>k. 1 \<le> k \<and> q = renamed ?p k)" by simp
  then show ?thesis
  proof
    assume "q = ?p"
    then show ?thesis by (intro exI[of _ "[]"]) (simp add: path_join_def)
  next
    assume "\<exists>k. 1 \<le> k \<and> q = renamed ?p k"
    then obtain k where "q = renamed ?p k" by blast
    then have "name q = b @ ''_part_'' @ format_03d i @ (''_'' @ str_int k) @ ''.pdf''"
      by (simp only: renamed_parts generated_stem generated_suffix) simp
    then show ?thesis by (intro exI[of _ "''_'' @ str_int k"]) simp
  qed
qed

lemma resolved_names_differ:
  assumes fin: "finite {q. path_exists q}"
    and i: "resolve_conflict path_exists
           (path_join d (b @ ''_part_'' @ format_03d (int i + 1) @ ''.pdf''))
           (path_join d (b @ ''_part_'' @ format_03d (int i + 1) @ ''.pdf'')) 1 = Some q"
    and j: "resolve_conflict path_exists
           (path_join d (b @ ''_part_'' @ format_03d (int j + 1) @ ''.pdf''))
           (path_join d (b @ ''_part_'' @ format_03d (int j + 1) @ ''.pdf'')) 1 = Some q'"
    and ne: "i \<noteq> j"
  shows "q \<noteq> q'"
proof
  assume eq: "q = q'"
  from resolved_name_form[OF fin i] obtain t where t: "t = [] \<or> hd t = CHR ''_''"
    "name q = b @ ''_part_'' @ format_03d (int i + 1) @ t @ ''.pdf''" by blast
  from resolved_name_form[OF fin j] obtain t' where t': "t' = [] \<or> hd t' = CHR ''_''"
    "name q' = b @ ''_part_'' @ format_03d (int j + 1) @ t' @ ''.pdf''" by blast
  from eq t(2) t'(2) have e: "format_03d (int i + 1) @ t = format_03d (int j + 1) @ t'"
    by simp
  have u: "CHR ''_'' \<notin> set (format_03d (int i + 1))" "CHR ''_'' \<notin> set (format_03d (int j + 1))"
    by (simp_all add: format_03d_no_underscore)
  have "format_03d (int i + 1) = format_03d (int j + 1)"
    by (rule prefix_unique[OF u t(1) t'(1) e])
  then have "int i + 1 = int j + 1" by (rule format_03d_inj[rotated 2]) simp_all
  with ne show False by simp
qed

section \<open>Output names\<close>

text \<open>
  C8. Name generation is positional: unless \<open>pages_per_split\<close> is 0 (a division by
  zero), \<open>generate_output_filenames\<close> returns one path for each of the
  \<open>n = (total_pages + pages_per_split - 1) // pages_per_split\<close> parts; the path at
  1-indexed position \<open>i\<close> lies in \<open>output_dir\<close>, its file name is
  \<open>{base_name}_part_{i:03d}.pdf\<close> and the stem of that name is \<open>{base_name}_part_{i:03d}\<close>;
  the generated paths are pairwise distinct. For base name \<open>doc\<close>, 20 pages and 8 pages
  per part the names are \<open>doc_part_001.pdf\<close>, \<open>doc_part_002.pdf\<close>, \<open>doc_part_003.pdf\<close>.
\<close>

theorem generate_output_filenames_positional:
  "(pages_per_split \<noteq> 0 \<longrightarrow>
     (\<exists>fs. generate_output_filenames self units pages_per_split = Inr fs
        \<and> length fs = nat ((units + pages_per_split - 1) div pages_per_split)
        \<and> (\<forall>i. i < length fs \<longrightarrow>
              parent (fs ! i) = output_dir self
              \<and> name (fs ! i) = base_name self @ ''_part_'' @ format_03d (int i + 1) @ ''.pdf''
              \<and> stem (fs ! i) = base_name self @ ''_part_'' @ format_03d (int i + 1))
        \<and> distinct fs))
   \<and> generate_output_filenames
        \<lparr>fm_input_file = path_join ''.'' ''doc.pdf'', output_dir = ''out'', base_name = ''doc''\<rparr>
        20 8
       = Inr [path_join ''out'' ''doc_part_001.pdf'', path_join ''out'' ''doc_part_002.pdf'',
              path_join ''out'' ''doc_part_003.pdf'']"
proof (intro conjI impI)
  assume nz: "pages_per_split \<noteq> 0"
  let ?g = "\<lambda>k. path_join (output_dir self)
                   (base_name self @ ''_part_'' @ format_03d (int k + 1) @ ''.pdf'')"
  let ?n = "nat ((units + pages_per_split - 1) div pages_per_split)"
  let ?fs = "map ?g [0..<?n]"
  have 1: "generate_output_filenames self units pages_per_split = Inr ?fs"
    by (rule generate_output_filenames_closed[OF nz])
  have 2: "length ?fs = ?n" by simp
  have 3: "\<forall>i. i < length ?fs \<longrightarrow>
              parent (?fs ! i) = output_dir self
              \<and> name (?fs ! i) = base_name self @ ''_part_'' @ format_03d (int i + 1) @ ''.pdf''
              \<and> stem (?fs ! i) = base_name self @ ''_part_'' @ format_03d (int i + 1)"
  proof (intro allI impI)
    fix i assume "i < length ?fs"
    then have e: "?fs ! i = ?g i" by simp
    show "parent (?fs ! i) = output_dir self
              \<and> name (?fs ! i) = base_name self @ ''_part_'' @ format_03d (int i + 1) @ ''.pdf''
              \<and> stem (?fs ! i) = base_name self @ ''_part_'' @ format_03d (int i + 1)"
      unfolding e generated_stem by (simp add: path_join_def)
  qed
  have "inj_on ?g (set [0..<?n])"
    by (intro inj_onI) (rule generated_names_inj)
  then have 4: "distinct ?fs" by (simp add: distinct_map)
  show "\<exists>fs. generate_output_filenames self units pages_per_split = Inr fs
        \<and> length fs = nat ((units + pages_per_split - 1) div pages_per_split)
        \<and> (\<forall>i. i < length fs \<longrightarrow>
              parent (fs ! i) = output_dir self
              \<and> name (fs ! i) = base_name self @ ''_part_'' @ format_03d (int i + 1) @ ''.pdf''
              \<and> stem (fs ! i) = base_name self @ ''_part_'' @ format_03d (int i + 1))
        \<and> distinct fs"
    by (intro exI[of _ ?fs] conjI; fact)
next
  show "generate_output_filenames
        \<lparr>fm_input_file = path_join ''.'' ''doc.pdf'', output_dir = ''out'', base_name = ''doc''\<rparr>
        20 8
       = Inr [path_join ''out'' ''doc_part_001.pdf'', path_join ''out'' ''doc_part_002.pdf'',
              path_join ''out'' ''doc_part_003.pdf'']"
    by (simp add: generate_output_filenames_def range_up.simps format_03d_def digits.simps
        digit_char_def numeral_2_eq_2)
qed

theorem generate_output_filenames_positional_witness:
  "(3::int) \<noteq> 0
   \<and> (\<exists>fs. generate_output_filenames
        \<lparr>fm_input_file = path_join ''.'' ''doc.pdf'', output_dir = ''out'', base_name = ''doc''\<rparr>
        9 3 = Inr fs
      \<and> length fs = 3 \<and> name (fs ! 2) = ''doc_part_003.pdf'' \<and> distinct fs)"
proof -
  let ?fm = "\<lparr>fm_input_file = path_join ''.'' ''doc.pdf'', output_dir = ''out'',
               base_name = ''doc''\<rparr>"
  have h: "(3::int) \<noteq> 0" by simp
  from generate_output_filenames_positional[of 3 ?fm 9, THEN conjunct1, THEN mp, OF h]
  obtain fs where g: "generate_output_filenames ?fm 9 3 = Inr fs"
    and l: "length fs = nat ((9 + 3 - 1) div 3)"
    and n: "\<forall>i. i < length fs \<longrightarrow>
              parent (fs ! i) = output_dir ?fm
              \<and> name (fs ! i) = base_name ?fm @ ''_part_'' @ format_03d (int i + 1) @ ''.pdf''
              \<and> stem (fs ! i) = base_name ?fm @ ''_part_'' @ format_03d (int i + 1)"
    and d: "distinct fs"
    by (elim exE conjE) (rule that; assumption)
  from l have l3: "length fs = 3" by simp
  with n have "name (fs ! 2) = base_name ?fm @ ''_part_'' @ format_03d (int 2 + 1) @ ''.pdf''"
    by simp
  then have "name (fs ! 2) = ''doc_part_003.pdf''"
    by (simp add: format_03d_def digits.simps digit_char_def numeral_2_eq_2)
  with g l3 d show ?thesis by simp
qed

lemma renamed_doc1:
  "renamed (path_join ''out'' ''doc_part_001.pdf'') 1 = path_join ''out'' ''doc_part_001_1.pdf''"
  by (simp add: renamed_def stem_def suffix_def rfind_def path_join_def str_int_def
      digits.simps digit_char_def)

lemma renamed_doc2:
  "renamed (path_join ''out'' ''doc_part_001.pdf'') 2 = path_join ''out'' ''doc_part_001_2.pdf''"
  by (simp add: renamed_def stem_def suffix_def rfind_def path_join_def str_int_def
      digits.simps digit_char_def)

lemma generate_doc_20_8:
  "generate_output_filenames
     \<lparr>fm_input_file = path_join ''.'' ''doc.pdf'', output_dir = ''out'', base_name = ''doc''\<rparr>
     20 8
   = Inr [path_join ''out'' ''doc_part_001.pdf'', path_join ''out'' ''doc_part_002.pdf'',
          path_join ''out'' ''doc_part_003.pdf'']"
  by (simp add: generate_output_filenames_def range_up.simps format_03d_def digits.simps
      digit_char_def numeral_2_eq_2)

section \<open>Conflict resolution\<close>

text \<open>
  C5. A proposed path that the storage reports as not existing is returned unchanged.
  A path that exists is renamed: the candidates are the original stem followed by
  \<open>_{counter}\<close> and the original suffix, for counter 1, 2, ...; each is tested against
  the storage, and the first that does not exist is returned. 
  \<open>handle_filename_conflicts\<close> does this for every path of its input, in order, and
  returns when the storage holds finitely many paths. An existing \<open>doc_part_001.pdf\<close>
  becomes \<open>doc_part_001_1.pdf\<close>, and \<open>doc_part_001_2.pdf\<close> when that exists too.
\<close>

theorem conflict_resolution_first_free:
  "(\<not> path_exists p \<longrightarrow> resolve_conflict path_exists p p 1 = Some p)
   \<and> (path_exists p \<and> 1 \<le> n \<and> (\<forall>c. 1 \<le> c \<and> c < n \<longrightarrow> path_exists (renamed p c))
        \<and> \<not> path_exists (renamed p n) \<longrightarrow>
          resolve_conflict path_exists p p 1 = Some (renamed p n))
   \<and> parent (renamed p n) = parent p
   \<and> name (renamed p n) = stem p @ ''_'' @ str_int n @ suffix p
   \<and> (handle_filename_conflicts path_exists ps = Some qs \<longrightarrow>
          length qs = length ps
          \<and> (\<forall>i. i < length ps \<longrightarrow>
                resolve_conflict path_exists (ps ! i) (ps ! i) 1 = Some (qs ! i)))
   \<and> (finite {q. path_exists q} \<longrightarrow>
          (\<exists>rs. handle_filename_conflicts path_exists ps = Some rs))
   \<and> handle_filename_conflicts (\<lambda>q. q \<in> set [path_join ''out'' ''doc_part_001.pdf''])
        [path_join ''out'' ''doc_part_001.pdf'', path_join ''out'' ''doc_part_002.pdf'']
       = Some [path_join ''out'' ''doc_part_001_1.pdf'', path_join ''out'' ''doc_part_002.pdf'']
   \<and> handle_filename_conflicts
        (\<lambda>q. q \<in> set [path_join ''out'' ''doc_part_001.pdf'',
                         path_join ''out'' ''doc_part_001_1.pdf''])
        [path_join ''out'' ''doc_part_001.pdf'']
       = Some [path_join ''out'' ''doc_part_001_2.pdf'']"
proof (intro conjI impI)
  assume "\<not> path_exists p"
  then show "resolve_conflict path_exists p p 1 = Some p" by (rule resolve_conflict_free)
next
  assume a: "path_exists p \<and> 1 \<le> n \<and> (\<forall>c. 1 \<le> c \<and> c < n \<longrightarrow> path_exists (renamed p c))
        \<and> \<not> path_exists (renamed p n)"
  then have "path_exists p" "\<not> path_exists (renamed p n)" "1 \<le> n" by simp_all
  from resolve_conflict_result[where path_exists = path_exists and p = p and n = n] this
  obtain k where k: "1 \<le> k" "k \<le> n" "resolve_conflict path_exists p p 1 = Some (renamed p k)"
    "\<not> path_exists (renamed p k)" by blast
  have "k = n"
  proof (rule ccontr)
    assume "k \<noteq> n"
    with k(1,2) have "1 \<le> k \<and> k < n" by simp
    with a have "path_exists (renamed p k)" by blast
    with k(4) show False by simp
  qed
  with k(3) show "resolve_conflict path_exists p p 1 = Some (renamed p n)" by simp
next
  show "parent (renamed p n) = parent p" by (rule renamed_parts)
next
  show "name (renamed p n) = stem p @ ''_'' @ str_int n @ suffix p" by (rule renamed_parts)
next
  assume "handle_filename_conflicts path_exists ps = Some qs"
  then have l: "list_all2 (\<lambda>p r. resolve_conflict path_exists p p 1 = Some r) ps qs"
    by (simp add: handle_filename_conflicts_iff)
  then show "length qs = length ps" by (simp add: list_all2_lengthD)
next
  assume "handle_filename_conflicts path_exists ps = Some qs"
  then have l: "list_all2 (\<lambda>p r. resolve_conflict path_exists p p 1 = Some r) ps qs"
    by (simp add: handle_filename_conflicts_iff)
  then show "\<forall>i. i < length ps \<longrightarrow>
                resolve_conflict path_exists (ps ! i) (ps ! i) 1 = Some (qs ! i)"
    by (simp add: list_all2_conv_all_nth)
next
  assume "finite {q. path_exists q}"
  then show "\<exists>rs. handle_filename_conflicts path_exists ps = Some rs"
    by (rule handle_filename_conflicts_total)
next
  let ?d = "path_join ''out'' ''doc_part_001.pdf''"
  let ?e = "\<lambda>q. q \<in> set [?d]"
  have 1: "resolve_conflict ?e ?d ?d 1 = Some (path_join ''out'' ''doc_part_001_1.pdf'')"
    using resolve_conflict_taken[where path_exists = ?e and q = ?d and p = ?d and c = 1]
      resolve_conflict_free[where path_exists = ?e and q = "renamed ?d 1" and p = ?d
        and c = "1 + 1"]
    by (simp add: renamed_doc1) (simp add: path_join_def)
  have 2: "resolve_conflict ?e (path_join ''out'' ''doc_part_002.pdf'')
             (path_join ''out'' ''doc_part_002.pdf'') 1
           = Some (path_join ''out'' ''doc_part_002.pdf'')"
    by (rule resolve_conflict_free) (simp add: path_join_def)
  show "handle_filename_conflicts ?e [?d, path_join ''out'' ''doc_part_002.pdf'']
       = Some [path_join ''out'' ''doc_part_001_1.pdf'', path_join ''out'' ''doc_part_002.pdf'']"
    by (simp only: handle_filename_conflicts_def handle_filename_conflicts_loop.simps 1 2
        option.simps append_Nil append_Cons)
next
  let ?d = "path_join ''out'' ''doc_part_001.pdf''"
  let ?e = "\<lambda>q. q \<in> set [?d, path_join ''out'' ''doc_part_001_1.pdf'']"
  have "resolve_conflict ?e ?d ?d 1 = Some (path_join ''out'' ''doc_part_001_2.pdf'')"
    using resolve_conflict_taken[where path_exists = ?e and q = ?d and p = ?d and c = 1]
      resolve_conflict_taken[where path_exists = ?e and q = "renamed ?d 1" and p = ?d
        and c = "1 + 1"]
      resolve_conflict_free[where path_exists = ?e and q = "renamed ?d 2" and p = ?d
        and c = "1 + 1 + 1"]
    by (simp add: renamed_doc1 renamed_doc2) (simp add: path_join_def)
  then show "handle_filename_conflicts ?e [?d] = Some [path_join ''out'' ''doc_part_001_2.pdf'']"
    by (simp only: handle_filename_conflicts_def handle_filename_conflicts_loop.simps
        option.simps append_Nil append_Cons)
qed


theorem conflict_resolution_first_free_witness:
  "resolve_conflict
     (\<lambda>q. q \<in> set [path_join ''out'' ''doc_part_001.pdf'',
                      path_join ''out'' ''doc_part_001_1.pdf''])
     (path_join ''out'' ''doc_part_002.pdf'') (path_join ''out'' ''doc_part_002.pdf'') 1
     = Some (path_join ''out'' ''doc_part_002.pdf'')
   \<and> resolve_conflict
     (\<lambda>q. q \<in> set [path_join ''out'' ''doc_part_001.pdf'',
                      path_join ''out'' ''doc_part_001_1.pdf''])
     (path_join ''out'' ''doc_part_001.pdf'') (path_join ''out'' ''doc_part_001.pdf'') 1
     = Some (path_join ''out'' ''doc_part_001_2.pdf'')
   \<and> finite {q. q \<in> set [path_join ''out'' ''doc_part_001.pdf'',
                           path_join ''out'' ''doc_part_001_1.pdf'']}
   \<and> (\<exists>rs. handle_filename_conflicts
          (\<lambda>q. q \<in> set [path_join ''out'' ''doc_part_001.pdf'',
                           path_join ''out'' ''doc_part_001_1.pdf''])
          [path_join ''out'' ''doc_part_001.pdf'', path_join ''out'' ''doc_part_002.pdf'']
          = Some rs
        \<and> length rs = 2
        \<and> resolve_conflict
             (\<lambda>q. q \<in> set [path_join ''out'' ''doc_part_001.pdf'',
                              path_join ''out'' ''doc_part_001_1.pdf''])
             (path_join ''out'' ''doc_part_002.pdf'') (path_join ''out'' ''doc_part_002.pdf'') 1
             = Some (rs ! 1))"
proof -
  let ?d1 = "path_join ''out'' ''doc_part_001.pdf''"
  let ?d2 = "path_join ''out'' ''doc_part_002.pdf''"
  let ?e = "\<lambda>q. q \<in> set [?d1, path_join ''out'' ''doc_part_001_1.pdf'']"
  have h1: "\<not> ?e ?d2" by (simp add: path_join_def)
  have a: "resolve_conflict ?e ?d2 ?d2 1 = Some ?d2"
    using conflict_resolution_first_free[of ?e ?d2 1 "[]" "[]", THEN conjunct1] h1 by blast
  have all: "\<forall>c. 1 \<le> c \<and> c < 2 \<longrightarrow> ?e (renamed ?d1 c)"
  proof (intro allI impI)
    fix c :: int assume "1 \<le> c \<and> c < 2"
    then have "c = 1" by simp
    then show "?e (renamed ?d1 c)" by (simp add: renamed_doc1)
  qed
  have h2: "?e ?d1 \<and> (1::int) \<le> 2 \<and> (\<forall>c. 1 \<le> c \<and> c < 2 \<longrightarrow> ?e (renamed ?d1 c))
            \<and> \<not> ?e (renamed ?d1 2)"
    using all by (simp add: renamed_doc2) (simp add: path_join_def)
  have "resolve_conflict ?e ?d1 ?d1 1 = Some (renamed ?d1 2)"
    using conflict_resolution_first_free[of ?e ?d1 2 "[]" "[]",
        THEN conjunct2, THEN conjunct1] h2 by blast
  then have b: "resolve_conflict ?e ?d1 ?d1 1 = Some (path_join ''out'' ''doc_part_001_2.pdf'')"
    by (simp only: renamed_doc2)
  have f: "finite {q. ?e q}" by simp
  note t = conflict_resolution_first_free[of ?e ?d1 2 "[?d1, ?d2]"]
  from t[of "[]"] f obtain rs where rs: "handle_filename_conflicts ?e [?d1, ?d2] = Some rs"
    by blast
  from t[of rs] rs have l: "length rs = length [?d1, ?d2]"
    and n: "\<forall>i. i < length [?d1, ?d2] \<longrightarrow>
              resolve_conflict ?e ([?d1, ?d2] ! i) ([?d1, ?d2] ! i) 1 = Some (rs ! i)"
    by blast+
  from n[THEN spec, of 1]
  have "resolve_conflict ?e ([?d1, ?d2] ! 1) ([?d1, ?d2] ! 1) 1 = Some (rs ! 1)"
    by simp
  then have c: "resolve_conflict ?e ?d2 ?d2 1 = Some (rs ! 1)" by simp
  from l have l2: "length rs = 2" by simp
  show ?thesis
    by (intro conjI exI[of _ rs]) (rule a b f rs l2 c)+
qed

section \<open>Resolved names stay distinct\<close>

text \<open>
  C4. Let the proposed paths be the ones \<open>generate_output_filenames\<close> produces
  (\<open>pages_per_split\<close> not 0) and let the storage hold finitely many paths. Then
  \<open>handle_filename_conflicts\<close> returns a list of the same length in which no path
  occurs twice, whichever of the generated or renamed paths the storage holds.
\<close>

theorem resolved_names_distinct:
  "pages_per_split \<noteq> 0 \<and> finite {q. path_exists q} \<longrightarrow>
     (\<exists>fs rs. generate_output_filenames self units pages_per_split = Inr fs
        \<and> handle_filename_conflicts path_exists fs = Some rs
        \<and> length rs = length fs \<and> distinct rs)"
proof
  assume a: "pages_per_split \<noteq> 0 \<and> finite {q. path_exists q}"
  then have nz: "pages_per_split \<noteq> 0" and fin: "finite {q. path_exists q}" by simp_all
  let ?g = "\<lambda>k. path_join (output_dir self)
                   (base_name self @ ''_part_'' @ format_03d (int k + 1) @ ''.pdf'')"
  let ?n = "nat ((units + pages_per_split - 1) div pages_per_split)"
  let ?fs = "map ?g [0..<?n]"
  have 1: "generate_output_filenames self units pages_per_split = Inr ?fs"
    by (rule generate_output_filenames_closed[OF nz])
  from handle_filename_conflicts_total[OF fin, of ?fs]
  obtain rs where 2: "handle_filename_conflicts path_exists ?fs = Some rs" by blast
  then have l: "list_all2 (\<lambda>p r. resolve_conflict path_exists p p 1 = Some r) ?fs rs"
    by (simp only: handle_filename_conflicts_iff)
  have 3: "length rs = length ?fs" using list_all2_lengthD[OF l] by simp
  have r: "resolve_conflict path_exists (?g i) (?g i) 1 = Some (rs ! i)" if "i < ?n" for i
  proof -
    from l that have "resolve_conflict path_exists (?fs ! i) (?fs ! i) 1 = Some (rs ! i)"
      by (simp add: list_all2_conv_all_nth)
    moreover have "?fs ! i = ?g i" using that by simp
    ultimately show ?thesis by simp
  qed
  have 4: "distinct rs"
  proof (unfold distinct_conv_nth, intro allI impI)
    fix i j assume i: "i < length rs" and j: "j < length rs" and ne: "i \<noteq> j"
    from i j 3 have "i < ?n" "j < ?n" by simp_all
    from resolved_names_differ[OF fin r[OF this(1)] r[OF this(2)] ne]
    show "rs ! i \<noteq> rs ! j" .
  qed
  show "\<exists>fs rs. generate_output_filenames self units pages_per_split = Inr fs
        \<and> handle_filename_conflicts path_exists fs = Some rs
        \<and> length rs = length fs \<and> distinct rs"
    by (intro exI[of _ ?fs] exI[of _ rs] conjI) (rule 1 2 3 4)+
qed

theorem resolved_names_distinct_witness:
  "(8::int) \<noteq> 0
   \<and> finite {q. q \<in> set [path_join ''out'' ''doc_part_001.pdf'',
                           path_join ''out'' ''doc_part_002.pdf'',
                           path_join ''out'' ''doc_part_001_1.pdf'']}
   \<and> (\<exists>rs. handle_filename_conflicts
          (\<lambda>q. q \<in> set [path_join ''out'' ''doc_part_001.pdf'',
                           path_join ''out'' ''doc_part_002.pdf'',
                           path_join ''out'' ''doc_part_001_1.pdf''])
          [path_join ''out'' ''doc_part_001.pdf'', path_join ''out'' ''doc_part_002.pdf'',
           path_join ''out'' ''doc_part_003.pdf'']
          = Some rs
        \<and> length rs = 3 \<and> distinct rs)"
proof -
  let ?fm = "\<lparr>fm_input_file = path_join ''.'' ''doc.pdf'', output_dir = ''out'',
               base_name = ''doc''\<rparr>"
  let ?e = "\<lambda>q. q \<in> set [path_join ''out'' ''doc_part_001.pdf'',
                           path_join ''out'' ''doc_part_002.pdf'',
                           path_join ''out'' ''doc_part_001_1.pdf'']"
  have f: "finite {q. ?e q}" by simp
  then have h: "(8::int) \<noteq> 0 \<and> finite {q. ?e q}" by simp
  from resolved_names_distinct[of 8 ?e ?fm 20, THEN mp, OF h]
  obtain fs rs where g: "generate_output_filenames ?fm 20 8 = Inr fs"
    and r: "handle_filename_conflicts ?e fs = Some rs" "length rs = length fs" "distinct rs"
    by (elim exE conjE) (rule that; assumption)
  from g have fs: "fs = [path_join ''out'' ''doc_part_001.pdf'',
      path_join ''out'' ''doc_part_002.pdf'', path_join ''out'' ''doc_part_003.pdf'']"
    by (simp only: generate_doc_20_8 sum.inject)
  from r(2) have l: "length rs = 3" unfolding fs by simp
  have z: "(8::int) \<noteq> 0" by simp
  show ?thesis
    by (intro conjI exI[of _ rs]) (rule z f r(1)[unfolded fs] l r(3))+
qed

section \<open>The split loop\<close>

lemma split_loop_append:
  "split_loop pages ofs cb wr n (xs @ ys) w =
     (case split_loop pages ofs cb wr n xs w of
        (Some e, w') \<Rightarrow> (Some e, w')
      | (None, w') \<Rightarrow> split_loop pages ofs cb wr n ys w')"
proof (induction xs arbitrary: w)
  case Nil
  show ?case by simp
next
  case (Cons x xs)
  show ?case
  proof (cases "split_range pages ofs cb wr n x w")
    case (Pair r w')
    then show ?thesis using Cons[of w'] by (cases r) simp_all
  qed
qed

lemma enumerate_split:
  assumes "k < length xs"
  shows "enumerate 0 xs = take k (enumerate 0 xs) @ (k, xs ! k) # drop (Suc k) (enumerate 0 xs)"
proof -
  have "k < length (enumerate 0 xs)" using assms by simp
  from id_take_nth_drop[OF this] show ?thesis using assms by (simp add: nth_enumerate_eq)
qed

lemma split_loop_failure:
  assumes "k < length ranges"
    and "split_loop pages ofs cb wr n (take k (enumerate 0 ranges)) w = (None, w1)"
    and "split_range pages ofs cb wr n (k, ranges ! k) w1 = (Some e, w2)"
  shows "split_loop pages ofs cb wr n (enumerate 0 ranges) w = (Some e, w2)"
proof -
  have "split_loop pages ofs cb wr n (enumerate 0 ranges) w
      = split_loop pages ofs cb wr n
          (take k (enumerate 0 ranges) @ (k, ranges ! k) # drop (Suc k) (enumerate 0 ranges)) w"
    using enumerate_split[OF assms(1)] by simp
  also have "\<dots> = (Some e, w2)"
    unfolding split_loop_append by (simp add: assms(2,3))
  finally show ?thesis .
qed

lemma py_getitem_take:
  assumes "i < m" "m \<le> length xs"
  shows "py_getitem (take m xs) (int i) = py_getitem xs (int i)"
  using assms by (simp add: py_getitem_def Let_def)

lemma split_range_take:
  assumes "fst item < m" "m \<le> length ofs"
  shows "split_range pages (take m ofs) cb wr n item w = split_range pages ofs cb wr n item w"
proof -
  obtain i s e where item: "item = (i, s, e)" by (cases item) auto
  with assms(1) have "i < m" by simp
  from py_getitem_take[OF this assms(2)] show ?thesis
    by (simp add: split_range_def item Let_def split: sum.splits)
qed

lemma split_loop_take:
  assumes "\<forall>item\<in>set items. fst item < m" "m \<le> length ofs"
  shows "split_loop pages (take m ofs) cb wr n items w = split_loop pages ofs cb wr n items w"
  using assms(1)
proof (induction items arbitrary: w)
  case Nil
  show ?case by simp
next
  case (Cons x xs)
  then have "fst x < m" and r: "\<forall>item\<in>set xs. fst item < m" by simp_all
  from split_range_take[OF this(1) assms(2)]
  have "split_range pages (take m ofs) cb wr n x w = split_range pages ofs cb wr n x w" .
  then show ?case using Cons.IH[OF r] by (simp split: prod.splits option.splits)
qed

lemma py_getitem_missing: "length xs \<le> i \<Longrightarrow> py_getitem xs (int i) = Inl IndexError"
  by (simp add: py_getitem_def Let_def)

lemma split_range_missing:
  assumes "length ofs \<le> i"
  shows "\<exists>e. split_range pages ofs cb wr n (i, r) w =
           (Some e, case cb of None \<Rightarrow> w
                    | Some f \<Rightarrow> f (int i + 1) n (''Creating part '' @ str_int (int i + 1)) w)"
proof -
  obtain s e where r: "r = (s, e)" by (cases r) auto
  from py_getitem_missing[OF assms] show ?thesis
    by (simp add: split_range_def r Let_def split: sum.splits)
qed

lemma split_loop_missing:
  assumes "\<exists>item\<in>set items. length ofs \<le> fst item"
  shows "fst (split_loop pages ofs cb wr n items w) \<noteq> None"
  using assms
proof (induction items arbitrary: w)
  case Nil
  then show ?case by simp
next
  case (Cons x xs)
  show ?case
  proof (cases "split_range pages ofs cb wr n x w")
    case (Pair r w')
    show ?thesis
    proof (cases r)
      case (Some e)
      with Pair show ?thesis by simp
    next
      case None
      have "\<not> length ofs \<le> fst x"
      proof
        assume "length ofs \<le> fst x"
        from split_range_missing[OF this, of pages cb wr n "snd x" w] Pair None
        show False by auto
      qed
      with Cons.prems have "\<exists>item\<in>set xs. length ofs \<le> fst item" by auto
      from Cons.IH[OF this, of w'] Pair None show ?thesis by simp
    qed
  qed
qed

section \<open>Failure while splitting\<close>

text \<open>
  C3, as the code has it. \<open>split_pdf\<close> stops at the first range whose processing raises:
  when the ranges before position \<open>k\<close> are processed without an exception and the range at
  position \<open>k\<close> raises, the call returns \<open>False\<close> and leaves the world as the failing
  range left it, so no later range is processed. The result is one Boolean, not a list of
  outcomes per range, and it is \<open>True\<close> only if no range raised.
\<close>

theorem split_pdf_stops_at_first_failure:
  "(reader self = Some pages \<and> get_page_ranges self pages_per_split = Inr ranges
      \<and> k < length ranges
      \<and> split_loop pages output_files cb wr (int (length ranges))
            (take k (enumerate 0 ranges)) w = (None, w1)
      \<and> split_range pages output_files cb wr (int (length ranges)) (k, ranges ! k) w1
            = (Some e, w2)
      \<longrightarrow> split_pdf self pages_per_split output_files cb wr w = (False, w2))
   \<and> (fst (split_pdf self pages_per_split output_files cb wr w) \<longrightarrow>
        (\<exists>pages ranges. reader self = Some pages
           \<and> get_page_ranges self pages_per_split = Inr ranges
           \<and> fst (split_loop pages output_files cb wr (int (length ranges))
                    (enumerate 0 ranges) w) = None))"
proof (intro conjI impI)
  assume a: "reader self = Some pages \<and> get_page_ranges self pages_per_split = Inr ranges
      \<and> k < length ranges
      \<and> split_loop pages output_files cb wr (int (length ranges))
            (take k (enumerate 0 ranges)) w = (None, w1)
      \<and> split_range pages output_files cb wr (int (length ranges)) (k, ranges ! k) w1
            = (Some e, w2)"
  then have r: "reader self = Some pages" "get_page_ranges self pages_per_split = Inr ranges"
    and k: "k < length ranges"
    and l: "split_loop pages output_files cb wr (int (length ranges))
            (take k (enumerate 0 ranges)) w = (None, w1)"
    and f: "split_range pages output_files cb wr (int (length ranges)) (k, ranges ! k) w1
            = (Some e, w2)"
    by simp_all
  from split_loop_failure[OF k l f]
  show "split_pdf self pages_per_split output_files cb wr w = (False, w2)"
    by (simp add: split_pdf_def r)
next
  assume "fst (split_pdf self pages_per_split output_files cb wr w)"
  then show "\<exists>pages ranges. reader self = Some pages
           \<and> get_page_ranges self pages_per_split = Inr ranges
           \<and> fst (split_loop pages output_files cb wr (int (length ranges))
                    (enumerate 0 ranges) w) = None"
    by (auto simp: split_pdf_def split: option.splits sum.splits prod.splits)
qed


theorem split_pdf_stops_at_first_failure_witness:
  "split_pdf
      (\<lparr>input_file = path_join ''.'' ''doc.pdf'',
        reader = Some [Inr 11, Inr 12, Inr 13, Inr 14, Inr 15, Inr 16],
        total_pages = 6\<rparr> :: nat PDFSplitter) 2
      [path_join ''out'' ''doc_part_001.pdf'', path_join ''out'' ''doc_part_002.pdf'',
       path_join ''out'' ''doc_part_003.pdf'']
      None
      (\<lambda>output_file writer files.
        if output_file = path_join ''out'' ''doc_part_002.pdf'' then (Some OSError, files)
        else (None, files @ [(output_file, writer)]))
      []
    = (False, [(path_join ''out'' ''doc_part_001.pdf'', [11, 12])])
   \<and> fst (split_pdf
      (\<lparr>input_file = path_join ''.'' ''doc.pdf'',
        reader = Some [Inr 11, Inr 12, Inr 13, Inr 14, Inr 15, Inr 16],
        total_pages = 6\<rparr> :: nat PDFSplitter) 2
      [path_join ''out'' ''doc_part_001.pdf'', path_join ''out'' ''doc_part_002.pdf'',
       path_join ''out'' ''doc_part_003.pdf'']
      None recording_write [])
   \<and> (\<exists>pages ranges. reader (\<lparr>input_file = path_join ''.'' ''doc.pdf'',
        reader = Some [Inr 11, Inr 12, Inr 13, Inr 14, Inr 15, Inr 16],
        total_pages = 6\<rparr> :: nat PDFSplitter) = Some pages
         \<and> get_page_ranges (\<lparr>input_file = path_join ''.'' ''doc.pdf'',
        reader = Some [Inr 11, Inr 12, Inr 13, Inr 14, Inr 15, Inr 16],
        total_pages = 6\<rparr> :: nat PDFSplitter) 2 = Inr ranges
         \<and> fst (split_loop pages
               [path_join ''out'' ''doc_part_001.pdf'', path_join ''out'' ''doc_part_002.pdf'',
       path_join ''out'' ''doc_part_003.pdf'']
               None recording_write (int (length ranges)) (enumerate 0 ranges) []) = None)"
proof -
  let ?doc = "(\<lparr>input_file = path_join ''.'' ''doc.pdf'',
        reader = Some [Inr 11, Inr 12, Inr 13, Inr 14, Inr 15, Inr 16],
        total_pages = 6\<rparr> :: nat PDFSplitter)"
  let ?fs = "[path_join ''out'' ''doc_part_001.pdf'', path_join ''out'' ''doc_part_002.pdf'',
       path_join ''out'' ''doc_part_003.pdf'']"
  let ?wr = "(\<lambda>output_file writer files.
        if output_file = path_join ''out'' ''doc_part_002.pdf'' then (Some OSError, files)
        else (None, files @ [(output_file, writer)]))"
  let ?pages = "[Inr 11, Inr 12, Inr 13, Inr 14, Inr 15, Inr 16] :: (py_error + nat) list"
  let ?ranges = "[(1, 2), (3, 4), (5, 6)] :: (int \<times> int) list"
  let ?w1 = "[(path_join ''out'' ''doc_part_001.pdf'', [11, 12 :: nat])]"
  have h1: "reader ?doc = Some ?pages" by simp
  have h2: "get_page_ranges ?doc 2 = Inr ?ranges"
    by (simp add: get_page_ranges_def py_range_def range_up.simps)
  have h3: "1 < length ?ranges" by simp
  have h4: "split_loop ?pages ?fs None ?wr (int (length ?ranges))
              (take 1 (enumerate 0 ?ranges)) [] = (None, ?w1)"
    by (simp add: split_range_def py_getitem_def range_up.simps Let_def path_join_def)
  have h5: "split_range ?pages ?fs None ?wr (int (length ?ranges)) (1, ?ranges ! 1) ?w1
              = (Some OSError, ?w1)"
    by (simp add: split_range_def py_getitem_def range_up.simps Let_def)
  note t = split_pdf_stops_at_first_failure[of ?doc ?pages 2 ?ranges 1 ?fs None _ "[]" ?w1
      OSError ?w1]
  have a: "split_pdf ?doc 2 ?fs None ?wr [] = (False, ?w1)"
    using t[of ?wr, THEN conjunct1] h1 h2 h3 h4 h5 by blast
  have b: "fst (split_pdf ?doc 2 ?fs None recording_write [])"
    by (simp add: split_pdf_def get_page_ranges_def py_range_def split_range_def py_getitem_def
      range_up.simps recording_write_def Let_def)
  from t[of recording_write, THEN conjunct2, THEN mp, OF b]
  have c: "\<exists>pages ranges. reader ?doc = Some pages
         \<and> get_page_ranges ?doc 2 = Inr ranges
         \<and> fst (split_loop pages ?fs None recording_write (int (length ranges))
                  (enumerate 0 ranges) []) = None" .
  show ?thesis by (intro conjI) (rule a b c)+
qed

theorem split_pdf_continue_counterexample:
  "split_pdf
      (\<lparr>input_file = path_join ''.'' ''doc.pdf'',
        reader = Some [Inr 11, Inr 12, Inl PdfReadError, Inr 14, Inr 15, Inr 16],
        total_pages = 6\<rparr> :: nat PDFSplitter) 2
      [path_join ''out'' ''doc_part_001.pdf'', path_join ''out'' ''doc_part_002.pdf'',
       path_join ''out'' ''doc_part_003.pdf'']
      None recording_write []
    = (False, [(path_join ''out'' ''doc_part_001.pdf'', [11, 12])])
   \<and> path_join ''out'' ''doc_part_003.pdf''
       \<notin> fst ` set (snd (split_pdf
      (\<lparr>input_file = path_join ''.'' ''doc.pdf'',
        reader = Some [Inr 11, Inr 12, Inl PdfReadError, Inr 14, Inr 15, Inr 16],
        total_pages = 6\<rparr> :: nat PDFSplitter) 2
      [path_join ''out'' ''doc_part_001.pdf'', path_join ''out'' ''doc_part_002.pdf'',
       path_join ''out'' ''doc_part_003.pdf'']
      None recording_write []))"
proof -
  have e: "split_pdf
      (\<lparr>input_file = path_join ''.'' ''doc.pdf'',
        reader = Some [Inr 11, Inr 12, Inl PdfReadError, Inr 14, Inr 15, Inr 16],
        total_pages = 6\<rparr> :: nat PDFSplitter) 2
      [path_join ''out'' ''doc_part_001.pdf'', path_join ''out'' ''doc_part_002.pdf'',
       path_join ''out'' ''doc_part_003.pdf'']
      None recording_write []
    = (False, [(path_join ''out'' ''doc_part_001.pdf'', [11, 12])])"
    by (simp add: split_pdf_def get_page_ranges_def py_range_def split_range_def py_getitem_def
      range_up.simps recording_write_def Let_def)
  show ?thesis unfolding e by (simp add: path_join_def)
qed

section \<open>Output files and ranges of different lengths\<close>

text \<open>
  C7, as the code has it. \<open>split_pdf\<close> does not compare the number of output files
  with the number of ranges. Output files beyond the number of ranges are ignored: the
  call behaves as with the list cut to that number, and can return \<open>True\<close>. With fewer
  output files than ranges the call returns \<open>False\<close>, but only once it reaches the first
  range that has no file: when the ranges before it raise nothing, they have been written
  by then, and the progress callback of the range without a file has run.
\<close>

theorem split_pdf_no_length_check:
  "get_page_ranges (self :: 'p PDFSplitter) pages_per_split = Inr ranges \<longrightarrow>
     (length ranges \<le> length output_files \<longrightarrow>
        split_pdf self pages_per_split output_files cb wr w
        = split_pdf self pages_per_split (take (length ranges) output_files) cb wr w)
     \<and> (length output_files < length ranges \<longrightarrow>
        fst (split_pdf self pages_per_split output_files cb wr w) = False)
     \<and> (length output_files < length ranges \<and> reader self = Some pages
         \<and> split_loop pages output_files cb wr (int (length ranges))
              (take (length output_files) (enumerate 0 ranges)) w = (None, w1) \<longrightarrow>
        split_pdf self pages_per_split output_files cb wr w
        = (False, case cb of None \<Rightarrow> w1
                  | Some f \<Rightarrow> f (int (length output_files) + 1) (int (length ranges))
                      (''Creating part '' @ str_int (int (length output_files) + 1)) w1))"
proof (intro conjI impI)
  assume g: "get_page_ranges self pages_per_split = Inr ranges"
    and le: "length ranges \<le> length output_files"
  have "\<forall>item\<in>set (enumerate 0 ranges). fst item < length ranges"
    by (auto simp: in_set_enumerate_eq)
  from split_loop_take[OF this le]
  have "split_loop pages' (take (length ranges) output_files) cb wr (int (length ranges))
          (enumerate 0 ranges) w
        = split_loop pages' output_files cb wr (int (length ranges)) (enumerate 0 ranges) w"
    for pages' :: "(py_error + 'p) list" .
  then show "split_pdf self pages_per_split output_files cb wr w
        = split_pdf self pages_per_split (take (length ranges) output_files) cb wr w"
    by (simp add: split_pdf_def g split: option.splits)
next
  assume g: "get_page_ranges self pages_per_split = Inr ranges"
    and lt: "length output_files < length ranges"
  have "(length output_files, ranges ! length output_files) \<in> set (enumerate 0 ranges)"
    using lt by (simp add: in_set_enumerate_eq)
  then have "\<exists>item\<in>set (enumerate 0 ranges). length output_files \<le> fst item"
    by (intro bexI[of _ "(length output_files, ranges ! length output_files)"]) simp_all
  note m = split_loop_missing[OF this]
  show "fst (split_pdf self pages_per_split output_files cb wr w) = False"
  proof (cases "reader self")
    case None
    then show ?thesis by (simp add: split_pdf_def)
  next
    case (Some pgs)
    from m[of pgs cb wr "int (length ranges)" w]
    obtain e w' where "split_loop pgs output_files cb wr (int (length ranges))
        (enumerate 0 ranges) w = (Some e, w')"
      by (cases "split_loop pgs output_files cb wr (int (length ranges))
        (enumerate 0 ranges) w") auto
    then show ?thesis by (simp add: split_pdf_def g Some)
  qed
next
  assume g: "get_page_ranges self pages_per_split = Inr ranges"
    and a: "length output_files < length ranges \<and> reader self = Some pages
         \<and> split_loop pages output_files cb wr (int (length ranges))
              (take (length output_files) (enumerate 0 ranges)) w = (None, w1)"
  then have lt: "length output_files < length ranges" and r: "reader self = Some pages"
    and l: "split_loop pages output_files cb wr (int (length ranges))
              (take (length output_files) (enumerate 0 ranges)) w = (None, w1)"
    by simp_all
  let ?w2 = "case cb of None \<Rightarrow> w1
             | Some f \<Rightarrow> f (int (length output_files) + 1) (int (length ranges))
                 (''Creating part '' @ str_int (int (length output_files) + 1)) w1"
  from split_range_missing[OF order_refl, of pages output_files cb wr "int (length ranges)"
      "ranges ! length output_files" w1]
  obtain e where "split_range pages output_files cb wr (int (length ranges))
      (length output_files, ranges ! length output_files) w1 = (Some e, ?w2)" by blast
  from split_loop_failure[OF lt l this]
  show "split_pdf self pages_per_split output_files cb wr w = (False, ?w2)"
    by (simp add: split_pdf_def g r)
qed

theorem split_pdf_no_length_check_witness:
  "get_page_ranges (\<lparr>input_file = path_join ''.'' ''doc.pdf'',
        reader = Some [Inr 11, Inr 12, Inr 13, Inr 14],
        total_pages = 4\<rparr> :: nat PDFSplitter) 2 = Inr [(1, 2), (3, 4)]
   \<and> length [(1::int, 2::int), (3, 4)] \<le> length [path_join ''out'' ''doc_part_001.pdf'', path_join ''out'' ''doc_part_002.pdf'',
       path_join ''out'' ''doc_part_003.pdf'']
   \<and> split_pdf (\<lparr>input_file = path_join ''.'' ''doc.pdf'',
        reader = Some [Inr 11, Inr 12, Inr 13, Inr 14],
        total_pages = 4\<rparr> :: nat PDFSplitter) 2
       [path_join ''out'' ''doc_part_001.pdf'', path_join ''out'' ''doc_part_002.pdf'',
       path_join ''out'' ''doc_part_003.pdf''] None recording_write []
     = split_pdf (\<lparr>input_file = path_join ''.'' ''doc.pdf'',
        reader = Some [Inr 11, Inr 12, Inr 13, Inr 14],
        total_pages = 4\<rparr> :: nat PDFSplitter) 2
       (take 2 [path_join ''out'' ''doc_part_001.pdf'', path_join ''out'' ''doc_part_002.pdf'',
       path_join ''out'' ''doc_part_003.pdf'']) None recording_write []
   \<and> length [path_join ''out'' ''doc_part_001.pdf''] < length [(1::int, 2::int), (3, 4)]
   \<and> split_pdf (\<lparr>input_file = path_join ''.'' ''doc.pdf'',
        reader = Some [Inr 11, Inr 12, Inr 13, Inr 14],
        total_pages = 4\<rparr> :: nat PDFSplitter) 2
       [path_join ''out'' ''doc_part_001.pdf''] None recording_write []
     = (False, [(path_join ''out'' ''doc_part_001.pdf'', [11, 12])])
   \<and> fst (split_pdf (\<lparr>input_file = path_join ''.'' ''doc.pdf'',
        reader = Some [Inr 11, Inr 12, Inr 13, Inr 14],
        total_pages = 4\<rparr> :: nat PDFSplitter) 2
       [path_join ''out'' ''doc_part_001.pdf''] None recording_write []) = False"
proof -
  let ?doc = "(\<lparr>input_file = path_join ''.'' ''doc.pdf'',
        reader = Some [Inr 11, Inr 12, Inr 13, Inr 14],
        total_pages = 4\<rparr> :: nat PDFSplitter)"
  let ?fs = "[path_join ''out'' ''doc_part_001.pdf'', path_join ''out'' ''doc_part_002.pdf'',
       path_join ''out'' ''doc_part_003.pdf'']"
  let ?pages = "[Inr 11, Inr 12, Inr 13, Inr 14] :: (py_error + nat) list"
  let ?ranges = "[(1, 2), (3, 4)] :: (int \<times> int) list"
  let ?w1 = "[(path_join ''out'' ''doc_part_001.pdf'', [11, 12 :: nat])]"
  have g: "get_page_ranges ?doc 2 = Inr ?ranges"
    by (simp add: get_page_ranges_def py_range_def range_up.simps)
  have le: "length ?ranges \<le> length ?fs" by simp
  have lt: "length [path_join ''out'' ''doc_part_001.pdf''] < length ?ranges" by simp
  have r: "reader ?doc = Some ?pages" by simp
  have l: "split_loop ?pages [path_join ''out'' ''doc_part_001.pdf''] None recording_write (int (length ?ranges))
             (take (length [path_join ''out'' ''doc_part_001.pdf'']) (enumerate 0 ?ranges)) [] = (None, ?w1)"
    by (simp add: split_range_def py_getitem_def range_up.simps Let_def recording_write_def)
  note t = split_pdf_no_length_check[of ?doc 2 ?ranges _ None recording_write "[]" ?pages ?w1,
      THEN mp, OF g]
  from t[of ?fs, THEN conjunct1, THEN mp, OF le]
  have a: "split_pdf ?doc 2 ?fs None recording_write []
     = split_pdf ?doc 2 (take 2 ?fs) None recording_write []" by simp
  from t[of "[path_join ''out'' ''doc_part_001.pdf'']", THEN conjunct2, THEN conjunct1, THEN mp, OF lt]
  have b: "fst (split_pdf ?doc 2 [path_join ''out'' ''doc_part_001.pdf''] None recording_write []) = False" .
  from t[of "[path_join ''out'' ''doc_part_001.pdf'']", THEN conjunct2, THEN conjunct2] lt r l
  have c: "split_pdf ?doc 2 [path_join ''out'' ''doc_part_001.pdf''] None recording_write [] = (False, ?w1)" by simp
  show ?thesis by (intro conjI) (rule g le a lt c b)+
qed

theorem split_pdf_length_mismatch_counterexample:
  "get_page_ranges (\<lparr>input_file = path_join ''.'' ''doc.pdf'',
        reader = Some [Inr 11, Inr 12, Inr 13, Inr 14],
        total_pages = 4\<rparr> :: nat PDFSplitter) 2 = Inr [(1, 2), (3, 4)]
   \<and> length [path_join ''out'' ''doc_part_001.pdf'', path_join ''out'' ''doc_part_002.pdf'',
       path_join ''out'' ''doc_part_003.pdf''] \<noteq> length [(1::int, 2::int), (3, 4)]
   \<and> split_pdf (\<lparr>input_file = path_join ''.'' ''doc.pdf'',
        reader = Some [Inr 11, Inr 12, Inr 13, Inr 14],
        total_pages = 4\<rparr> :: nat PDFSplitter) 2
       [path_join ''out'' ''doc_part_001.pdf'', path_join ''out'' ''doc_part_002.pdf'',
       path_join ''out'' ''doc_part_003.pdf''] None recording_write []
     = (True, [(path_join ''out'' ''doc_part_001.pdf'', [11, 12]),
               (path_join ''out'' ''doc_part_002.pdf'', [13, 14])])
   \<and> split_pdf (\<lparr>input_file = path_join ''.'' ''doc.pdf'',
        reader = Some [Inr 11, Inr 12, Inr 13, Inr 14],
        total_pages = 4\<rparr> :: nat PDFSplitter) 2
       [path_join ''out'' ''doc_part_001.pdf''] None recording_write []
     = (False, [(path_join ''out'' ''doc_part_001.pdf'', [11, 12])])"
  by (simp add: split_pdf_def get_page_ranges_def py_range_def split_range_def py_getitem_def
      range_up.simps recording_write_def Let_def)

section \<open>The print loop\<close>

lemma print_loop_Cons:
  "print_file pe sub p pn po
     (case cb of None \<Rightarrow> w | Some f \<Rightarrow> f (int i + 1) n (''Printing '' @ name p) w)
     = ((s, m), w2) \<Longrightarrow>
   print_loop pe sub pn po cb n ((i, p) # xs) results w
     = print_loop pe sub pn po cb n xs (results(path_str p \<mapsto> (s, m))) w2"
  by (simp add: Let_def)

lemma print_loop_step:
  "\<exists>s m w2. \<forall>xs results.
     print_loop pe sub pn po cb n ((i, p) # xs) results w
       = print_loop pe sub pn po cb n xs (results(path_str p \<mapsto> (s, m))) w2"
proof -
  let ?w1 = "case cb of None \<Rightarrow> w | Some f \<Rightarrow> f (int i + 1) n (''Printing '' @ name p) w"
  obtain s m w2 where pf: "print_file pe sub p pn po ?w1 = ((s, m), w2)"
    by (cases "print_file pe sub p pn po ?w1") auto
  show ?thesis using print_loop_Cons[OF pf] by blast
qed

declare print_loop.simps(2) [simp del]

lemma dom_print_loop:
  "dom (fst (print_loop pe sub pn po cb n items results w))
     = dom results \<union> path_str ` snd ` set items"
proof (induction items arbitrary: results w)
  case Nil
  show ?case by simp
next
  case (Cons x xs)
  obtain i p where x: "x = (i, p)" by (cases x) auto
  from print_loop_step[of pe sub pn po cb n i p w] obtain s m w2
    where e: "\<And>zs r. print_loop pe sub pn po cb n ((i, p) # zs) r w
       = print_loop pe sub pn po cb n zs (r(path_str p \<mapsto> (s, m))) w2" by blast
  show ?case unfolding x e Cons by auto
qed

lemma print_file_recording:
  "snd (print_file pe (recording_submit outcome) p pn po submitted)
     = submitted @ (if pe p \<and> lower (suffix p) = ''.pdf'' then [p] else [])"
  by (simp add: print_file_def recording_submit_def split: sum.splits)

lemma snd_print_loop_recording:
  "snd (print_loop pe (recording_submit outcome) pn po None n items results submitted)
     = submitted @ filter (\<lambda>p. pe p \<and> lower (suffix p) = ''.pdf'') (map snd items)"
proof (induction items arbitrary: results submitted)
  case Nil
  show ?case by simp
next
  case (Cons x xs)
  obtain i p where x: "x = (i, p)" by (cases x) auto
  obtain s m w2 where pf: "print_file pe (recording_submit outcome) p pn po submitted = ((s, m), w2)"
    by (cases "print_file pe (recording_submit outcome) p pn po submitted") auto
  from print_file_recording[of pe outcome p pn po submitted] pf
  have w2: "w2 = submitted @ (if pe p \<and> lower (suffix p) = ''.pdf'' then [p] else [])" by simp
  have e: "print_loop pe (recording_submit outcome) pn po None n ((i, p) # xs) results submitted
      = print_loop pe (recording_submit outcome) pn po None n xs
          (results(path_str p \<mapsto> (s, m))) w2"
    by (rule print_loop_Cons) (simp add: pf)
  show ?case unfolding x e Cons by (simp add: w2)
qed

lemma print_loop_append:
  "print_loop pe sub pn po cb n (xs @ ys) results w =
     (case print_loop pe sub pn po cb n xs results w of
        (results', w') \<Rightarrow> print_loop pe sub pn po cb n ys results' w')"
proof (induction xs arbitrary: results w)
  case Nil
  show ?case by simp
next
  case (Cons x xs)
  obtain i p where x: "x = (i, p)" by (cases x) auto
  from print_loop_step[of pe sub pn po cb n i p w] obtain s m w2
    where e: "\<And>zs r. print_loop pe sub pn po cb n ((i, p) # zs) r w
       = print_loop pe sub pn po cb n zs (r(path_str p \<mapsto> (s, m))) w2" by blast
  show ?case unfolding x append_Cons e Cons by (rule refl)
qed

lemma print_loop_other_key:
  "k \<notin> path_str ` snd ` set items \<Longrightarrow>
     fst (print_loop pe sub pn po cb n items results w) k = results k"
proof (induction items arbitrary: results w)
  case Nil
  show ?case by simp
next
  case (Cons x xs)
  obtain i p where x: "x = (i, p)" by (cases x) auto
  from print_loop_step[of pe sub pn po cb n i p w] obtain s m w2
    where e: "\<And>zs r. print_loop pe sub pn po cb n ((i, p) # zs) r w
       = print_loop pe sub pn po cb n zs (r(path_str p \<mapsto> (s, m))) w2" by blast
  from Cons.prems have k: "k \<noteq> path_str p" "k \<notin> path_str ` snd ` set xs" by (auto simp: x)
  show ?case unfolding x e Cons.IH[OF k(2)] using k(1) by simp
qed


lemma print_results_per_call:
  assumes d: "distinct (map path_str fps)" and i: "i < length fps"
  shows "fst (print_multiple_files pe (recording_submit outcome) fps pn po None [])
           (path_str (fps ! i))
         = Some (fst (print_file pe (recording_submit outcome) (fps ! i) pn po
                   (filter (\<lambda>p. pe p \<and> lower (suffix p) = ''.pdf'') (take i fps))))"
proof -
  let ?sub = "recording_submit outcome"
  let ?n = "int (length fps)"
  let ?E = "enumerate 0 fps"
  let ?valid = "\<lambda>p. pe p \<and> lower (suffix p) = ''.pdf''"
  let ?k = "path_str (fps ! i)"
  have iE: "i < length ?E" using i by simp
  have E: "?E = take i ?E @ (i, fps ! i) # drop (Suc i) ?E"
    using id_take_nth_drop[OF iE] i by (simp add: nth_enumerate_eq)
  obtain r1 w1 where l1: "print_loop pe ?sub pn po None ?n (take i ?E) Map.empty [] = (r1, w1)"
    by (cases "print_loop pe ?sub pn po None ?n (take i ?E) Map.empty []") auto
  have "map snd (take i ?E) = take i fps" by (simp add: take_map[symmetric])
  with snd_print_loop_recording[of pe outcome pn po ?n "take i ?E" Map.empty "[]"] l1
  have w1: "w1 = filter ?valid (take i fps)" by simp
  obtain s m w2 where pf: "print_file pe ?sub (fps ! i) pn po w1 = ((s, m), w2)"
    by (cases "print_file pe ?sub (fps ! i) pn po w1") auto
  have st: "print_loop pe ?sub pn po None ?n ((i, fps ! i) # drop (Suc i) ?E) r1 w1
      = print_loop pe ?sub pn po None ?n (drop (Suc i) ?E) (r1(?k \<mapsto> (s, m))) w2"
    by (rule print_loop_Cons) (simp add: pf)
  have "map path_str fps = take i (map path_str fps) @ ?k # drop (Suc i) (map path_str fps)"
    using id_take_nth_drop[of i "map path_str fps"] i by simp
  with d have "distinct (take i (map path_str fps) @ ?k # drop (Suc i) (map path_str fps))"
    by simp
  then have "?k \<notin> set (drop (Suc i) (map path_str fps))" by simp
  moreover have "path_str ` snd ` set (drop (Suc i) ?E) = set (drop (Suc i) (map path_str fps))"
  proof -
    have "map path_str (map snd (drop (Suc i) ?E)) = drop (Suc i) (map path_str fps)"
      by (simp add: drop_map[symmetric])
    then have "set (map path_str (map snd (drop (Suc i) ?E)))
        = set (drop (Suc i) (map path_str fps))" by simp
    then show ?thesis by (simp add: image_image)
  qed
  ultimately have nk: "?k \<notin> path_str ` snd ` set (drop (Suc i) ?E)" by simp
  have "print_multiple_files pe ?sub fps pn po None []
      = print_loop pe ?sub pn po None ?n (take i ?E @ (i, fps ! i) # drop (Suc i) ?E)
          Map.empty []"
    unfolding print_multiple_files_def using E by simp
  also have "\<dots> = print_loop pe ?sub pn po None ?n (drop (Suc i) ?E) (r1(?k \<mapsto> (s, m))) w2"
    unfolding print_loop_append l1 by (simp add: st)
  finally have "fst (print_multiple_files pe ?sub fps pn po None []) ?k
      = fst (print_loop pe ?sub pn po None ?n (drop (Suc i) ?E) (r1(?k \<mapsto> (s, m))) w2) ?k"
    by simp
  also have "\<dots> = (r1(?k \<mapsto> (s, m))) ?k"
    by (rule print_loop_other_key[OF nk])
  finally have "fst (print_multiple_files pe ?sub fps pn po None []) ?k
      = (r1(?k \<mapsto> (s, m))) ?k" .
  then show ?thesis using pf by (simp add: w1)
qed

lemma print_three_files:
  "print_multiple_files (\<lambda>p. True)
     (recording_submit (\<lambda>submitted p.
        if p = path_join ''out'' ''doc_part_002.pdf'' then Inr (False, ''Linux print failed'')
        else Inr (True, ''Sent to printer: default'')))
     [path_join ''out'' ''doc_part_001.pdf'', path_join ''out'' ''doc_part_002.pdf'',
      path_join ''out'' ''doc_part_003.pdf'']
     None [] None []
   = (Map.empty(''out/doc_part_001.pdf'' \<mapsto> (True, ''Sent to printer: default''),
                ''out/doc_part_002.pdf'' \<mapsto> (False, ''Linux print failed''),
                ''out/doc_part_003.pdf'' \<mapsto> (True, ''Sent to printer: default'')),
      [path_join ''out'' ''doc_part_001.pdf'', path_join ''out'' ''doc_part_002.pdf'',
      path_join ''out'' ''doc_part_003.pdf''])"
  by (simp add: print_multiple_files_def print_loop.simps print_file_def recording_submit_def
      path_str_def path_join_def suffix_def rfind_def lower_def lower_char_def Let_def)

section \<open>Batch printing\<close>

text \<open>
  C9. \<open>print_multiple_files\<close> returns a mapping whose keys are exactly the texts of the
  input paths, so no input is left out and each has one entry; when the texts are
  pairwise different the mapping has as many entries as the input has paths. The files
  are dispatched one after the other in input order, whatever the outcome of the earlier
  ones: a sink that records its submissions ends with the printable inputs in input
  order, and with pairwise different texts the entry of each file is the outcome of its
  own call, made after the submissions of the files before it. For three files where the
  sink fails for the second, the mapping has the three entries success, failure, success
  and the submissions are 1, 2, 3.
\<close>

theorem print_multiple_files_complete:
  "dom (fst (print_multiple_files pe sub fps pn po cb w)) = path_str ` set fps
   \<and> (distinct (map path_str fps) \<longrightarrow>
        card (dom (fst (print_multiple_files pe sub fps pn po cb w))) = length fps)
   \<and> snd (print_multiple_files pe (recording_submit outcome) fps pn po None [])
       = filter (\<lambda>p. pe p \<and> lower (suffix p) = ''.pdf'') fps
   \<and> (distinct (map path_str fps) \<and> i < length fps \<longrightarrow>
        fst (print_multiple_files pe (recording_submit outcome) fps pn po None [])
           (path_str (fps ! i))
         = Some (fst (print_file pe (recording_submit outcome) (fps ! i) pn po
                   (filter (\<lambda>p. pe p \<and> lower (suffix p) = ''.pdf'') (take i fps)))))
   \<and> print_multiple_files (\<lambda>p. True)
     (recording_submit (\<lambda>submitted p.
        if p = path_join ''out'' ''doc_part_002.pdf'' then Inr (False, ''Linux print failed'')
        else Inr (True, ''Sent to printer: default'')))
     [path_join ''out'' ''doc_part_001.pdf'', path_join ''out'' ''doc_part_002.pdf'',
      path_join ''out'' ''doc_part_003.pdf'']
     None [] None []
   = (Map.empty(''out/doc_part_001.pdf'' \<mapsto> (True, ''Sent to printer: default''),
                ''out/doc_part_002.pdf'' \<mapsto> (False, ''Linux print failed''),
                ''out/doc_part_003.pdf'' \<mapsto> (True, ''Sent to printer: default'')),
      [path_join ''out'' ''doc_part_001.pdf'', path_join ''out'' ''doc_part_002.pdf'',
      path_join ''out'' ''doc_part_003.pdf''])"
proof (intro conjI impI)
  show 1: "dom (fst (print_multiple_files pe sub fps pn po cb w)) = path_str ` set fps"
    for sub :: "'w submit" and cb w
  proof -
    have "snd ` set (enumerate 0 fps) = set fps"
      using set_map[of snd "enumerate 0 fps"] by simp
    then show ?thesis by (simp add: print_multiple_files_def dom_print_loop)
  qed
  assume "distinct (map path_str fps)"
  then have "card (path_str ` set fps) = length fps"
    using distinct_card[of "map path_str fps"] by simp
  then show "card (dom (fst (print_multiple_files pe sub fps pn po cb w))) = length fps"
    by (simp only: 1)
next
  show "snd (print_multiple_files pe (recording_submit outcome) fps pn po None [])
       = filter (\<lambda>p. pe p \<and> lower (suffix p) = ''.pdf'') fps"
    by (simp add: print_multiple_files_def snd_print_loop_recording)
next
  assume "distinct (map path_str fps) \<and> i < length fps"
  then have "distinct (map path_str fps)" "i < length fps" by simp_all
  then show "fst (print_multiple_files pe (recording_submit outcome) fps pn po None [])
           (path_str (fps ! i))
         = Some (fst (print_file pe (recording_submit outcome) (fps ! i) pn po
                   (filter (\<lambda>p. pe p \<and> lower (suffix p) = ''.pdf'') (take i fps))))"
    by (rule print_results_per_call)
next
  show "print_multiple_files (\<lambda>p. True)
     (recording_submit (\<lambda>submitted p.
        if p = path_join ''out'' ''doc_part_002.pdf'' then Inr (False, ''Linux print failed'')
        else Inr (True, ''Sent to printer: default'')))
     [path_join ''out'' ''doc_part_001.pdf'', path_join ''out'' ''doc_part_002.pdf'',
      path_join ''out'' ''doc_part_003.pdf'']
     None [] None []
   = (Map.empty(''out/doc_part_001.pdf'' \<mapsto> (True, ''Sent to printer: default''),
                ''out/doc_part_002.pdf'' \<mapsto> (False, ''Linux print failed''),
                ''out/doc_part_003.pdf'' \<mapsto> (True, ''Sent to printer: default'')),
      [path_join ''out'' ''doc_part_001.pdf'', path_join ''out'' ''doc_part_002.pdf'',
      path_join ''out'' ''doc_part_003.pdf''])"
    by (rule print_three_files)
qed


theorem print_multiple_files_complete_witness:
  "distinct (map path_str [path_join ''out'' ''doc_part_001.pdf'', path_join ''out'' ''doc_part_002.pdf'',
      path_join ''out'' ''doc_part_003.pdf''])
   \<and> card (dom (fst (print_multiple_files (\<lambda>p. True)
       (recording_submit (\<lambda>submitted p.
        if p = path_join ''out'' ''doc_part_002.pdf'' then Inr (False, ''Linux print failed'')
        else Inr (True, ''Sent to printer: default'')))
       [path_join ''out'' ''doc_part_001.pdf'', path_join ''out'' ''doc_part_002.pdf'',
      path_join ''out'' ''doc_part_003.pdf'']
       None [] None []))) = 3
   \<and> 1 < length [path_join ''out'' ''doc_part_001.pdf'', path_join ''out'' ''doc_part_002.pdf'',
      path_join ''out'' ''doc_part_003.pdf'']
   \<and> fst (print_multiple_files (\<lambda>p. True)
       (recording_submit (\<lambda>submitted p.
        if p = path_join ''out'' ''doc_part_002.pdf'' then Inr (False, ''Linux print failed'')
        else Inr (True, ''Sent to printer: default'')))
       [path_join ''out'' ''doc_part_001.pdf'', path_join ''out'' ''doc_part_002.pdf'',
      path_join ''out'' ''doc_part_003.pdf'']
       None [] None []) ''out/doc_part_002.pdf''
     = Some (False, ''Linux print failed'')"
proof -
  let ?fs = "[path_join ''out'' ''doc_part_001.pdf'', path_join ''out'' ''doc_part_002.pdf'',
      path_join ''out'' ''doc_part_003.pdf'']"
  let ?outcome = "(\<lambda>submitted p.
        if p = path_join ''out'' ''doc_part_002.pdf'' then Inr (False, ''Linux print failed'')
        else Inr (True, ''Sent to printer: default'')) :: path list \<Rightarrow> path \<Rightarrow> string + bool \<times> string"
  have d: "distinct (map path_str ?fs)" by (simp add: path_str_def path_join_def)
  have i: "1 < length ?fs" by simp
  note t = print_multiple_files_complete[where pe = "\<lambda>p. True"
      and sub = "recording_submit ?outcome" and fps = ?fs and pn = None and po = "[]"
      and cb = None and w = "[]" and outcome = ?outcome and i = 1]
  from t[THEN conjunct2, THEN conjunct1, THEN mp, OF d]
  have c: "card (dom (fst (print_multiple_files (\<lambda>p. True) (recording_submit ?outcome) ?fs
      None [] None []))) = 3" by simp
  from d i have di: "distinct (map path_str ?fs) \<and> 1 < length ?fs" by (rule conjI)
  from t[THEN conjunct2, THEN conjunct2, THEN conjunct2, THEN conjunct1, THEN mp, OF di]
  have "fst (print_multiple_files (\<lambda>p. True) (recording_submit ?outcome) ?fs None [] None [])
          (path_str (?fs ! 1))
        = Some (fst (print_file (\<lambda>p. True) (recording_submit ?outcome) (?fs ! 1) None []
                  (filter (\<lambda>p. True \<and> lower (suffix p) = ''.pdf'') (take 1 ?fs))))" .
  moreover have "path_str (?fs ! 1) = ''out/doc_part_002.pdf''"
    by (simp add: path_str_def path_join_def)
  moreover have "fst (print_file (\<lambda>p. True) (recording_submit ?outcome) (?fs ! 1) None []
                  (filter (\<lambda>p. True \<and> lower (suffix p) = ''.pdf'') (take 1 ?fs)))
        = (False, ''Linux print failed'')"
    by (simp add: print_file_def recording_submit_def path_join_def suffix_def rfind_def
        lower_def lower_char_def Let_def)
  ultimately have e: "fst (print_multiple_files (\<lambda>p. True) (recording_submit ?outcome) ?fs
      None [] None []) ''out/doc_part_002.pdf'' = Some (False, ''Linux print failed'')"
    by simp
  show ?thesis by (intro conjI) (rule d c i e)+
qed

end
